theory Spec2Isabelle
  imports Main "HOL-Library.Word" "HOL-Library.Signed_Division"
begin

unbundle bit_operations_syntax

section \<open>DirectoryWatcher: data model\<close>

text \<open>
  The embedding follows \<^verbatim>\<open>DirectoryWatcher.h\<close> and \<^verbatim>\<open>DirectoryWatcher.cpp\<close>.
  The fixed-width types: \<^verbatim>\<open>u32\<close>, \<^verbatim>\<open>u64\<close> and \<^verbatim>\<open>char16_t\<close> values are words;
  \<^verbatim>\<open>s32\<close> values are kept as \<open>int\<close>, and the places where an \<^verbatim>\<open>s32\<close> computation can
  leave the 32-bit range (undefined behaviour in C++) are error branches of the model.
\<close>

type_synonym u32 = "32 word"
type_synonym u64 = "64 word"
type_synonym char16 = "16 word"

definition s32_range :: "int \<Rightarrow> bool" where
  "s32_range x = (- (2 ^ 31) \<le> x \<and> x < 2 ^ 31)"

text \<open>
  Every way in which the C++ code stops instead of returning: a failed \<^verbatim>\<open>assert\<close>, and the
  undefined behaviours that the source does not guard against.
\<close>

datatype error =
    AssertionFailed
  | SignedOverflow
  | DivideByZero
  | OutOfBounds
  | NullPointer
  | UninitialisedRead
  | UseAfterFree

datatype EFileAction =
    None_action
  | Added
  | Removed
  | Modified
  | RenamedFrom
  | RenamedTo
  | TooManyChanges
  | Count_action

text \<open>
  \<^verbatim>\<open>struct FileChange\<close>. The field \<^verbatim>\<open>path\<close> is a zero-initialised array of \<^verbatim>\<open>MAX_PATH * 3\<close>
  bytes that receives a NUL-terminated UTF-8 string; the model keeps the bytes in front of
  the terminator. The field \<^verbatim>\<open>size\<close> is called \<open>size_bytes\<close> here.
\<close>

record FileChange =
  path :: string
  path_length :: int
  action :: EFileAction
  creation_time :: u64
  modification_time :: u64
  change_time :: u64
  access_time :: u64
  size_bytes :: u64
  attributes :: u32
  is_directory :: bool

text \<open>\<^verbatim>\<open>FileChange change = {};\<close>\<close>

definition FileChange_zero :: FileChange where
  "FileChange_zero =
     \<lparr>path = [], path_length = 0, action = None_action, creation_time = 0,
      modification_time = 0, change_time = 0, access_time = 0, size_bytes = 0,
      attributes = 0, is_directory = False\<rparr>"

section \<open>ThreadSafeQueue\<close>

text \<open>
  \<^verbatim>\<open>data\<close> is a pointer to a \<^verbatim>\<open>malloc\<close>ed array: \<open>None\<close> is the null pointer, and a cell of
  the array is \<open>None\<close> until it has been written (\<^verbatim>\<open>malloc\<close> does not initialise).
  Allocation is taken to succeed: the source does not test the result of \<^verbatim>\<open>malloc\<close> in
  \<^verbatim>\<open>Create\<close> and \<^verbatim>\<open>Grow\<close>.
\<close>

record ThreadSafeQueue =
  lock :: int
  data :: "FileChange option list option"
  capacity :: int
  count :: int
  front_index :: int

definition InitialCapacity :: int where
  "InitialCapacity = 16"

definition GrowRate :: int where
  "GrowRate = 2"

text \<open>
  \<^verbatim>\<open>while (InterlockedExchange(&lock, 1) == 1) {}\<close>: the exchange stores 1 and yields the old
  value. In a sequential run nobody else releases the lock, so on a held lock the loop
  does not return: the value \<open>None\<close>.
\<close>

partial_function (option) Lock :: "ThreadSafeQueue \<Rightarrow> ThreadSafeQueue option" where
  "Lock q = (if lock q = 1 then Lock (q\<lparr>lock := 1\<rparr>) else Some (q\<lparr>lock := 1\<rparr>))"

definition Unlock :: "ThreadSafeQueue \<Rightarrow> ThreadSafeQueue" where
  "Unlock q = q\<lparr>lock := 0\<rparr>"

definition Create :: ThreadSafeQueue where
  "Create =
     \<lparr>lock = 0, data = Some (replicate (nat InitialCapacity) None),
      capacity = InitialCapacity, count = 0, front_index = 0\<rparr>"

text \<open>
  \<^verbatim>\<open>CopyMemory(dst + doff, src + soff, n * sizeof(FileChange))\<close> on arrays of cells.
  A negative \<open>n\<close> would be converted to a huge \<^verbatim>\<open>size_t\<close>.
\<close>

definition CopyMemory :: "'a list \<Rightarrow> int \<Rightarrow> 'a list \<Rightarrow> int \<Rightarrow> int \<Rightarrow> error + 'a list" where
  "CopyMemory dst doff src soff n =
     (if 0 \<le> doff \<and> 0 \<le> soff \<and> 0 \<le> n \<and>
         doff + n \<le> int (length dst) \<and> soff + n \<le> int (length src)
      then Inr (take (nat doff) dst @ take (nat n) (drop (nat soff) src)
                 @ drop (nat (doff + n)) dst)
      else Inl OutOfBounds)"

definition Grow :: "ThreadSafeQueue \<Rightarrow> error + ThreadSafeQueue" where
  "Grow q =
     (case data q of
        None \<Rightarrow> Inl AssertionFailed
      | Some d \<Rightarrow>
          if capacity q = 0 then Inl AssertionFailed
          else if \<not> s32_range (capacity q * GrowRate) then Inl SignedOverflow
          else
            let new_capacity = capacity q * GrowRate;
                new_data = replicate (nat new_capacity) None
            in if \<not> s32_range (front_index q + count q) then Inl SignedOverflow
               else
                 (case
                    (if front_index q + count q > capacity q then
                       let block1_count = capacity q - front_index q;
                           block2_count = count q - block1_count
                       in (case CopyMemory new_data 0 d (front_index q) block1_count of
                             Inl e \<Rightarrow> Inl e
                           | Inr new_data1 \<Rightarrow>
                               CopyMemory new_data1 block1_count d 0 block2_count)
                     else CopyMemory new_data 0 d (front_index q) (count q))
                  of
                    Inl e \<Rightarrow> Inl e
                  | Inr new_data2 \<Rightarrow>
                      Inr (q\<lparr>data := Some new_data2, capacity := new_capacity,
                             front_index := 0\<rparr>)))"

text \<open>
  The results of \<^verbatim>\<open>Push\<close> and \<^verbatim>\<open>Pop\<close>: \<open>None\<close> when the call does not return (the spin
  lock), \<open>Some (Inl e)\<close> when it stops with \<open>e\<close>, \<open>Some (Inr r)\<close> when it returns \<open>r\<close>.
  The C++ \<^verbatim>\<open>%\<close> truncates towards zero: \<open>smod\<close>.
\<close>

definition Push :: "ThreadSafeQueue \<Rightarrow> FileChange \<Rightarrow> (error + ThreadSafeQueue) option" where
  "Push q element =
     (case Lock q of
        None \<Rightarrow> None
      | Some q1 \<Rightarrow>
          Some (case (if count q1 = capacity q1 then Grow q1 else Inr q1) of
                  Inl e \<Rightarrow> Inl e
                | Inr q2 \<Rightarrow>
                    if \<not> s32_range (front_index q2 + count q2) then Inl SignedOverflow
                    else if capacity q2 = 0 then Inl DivideByZero
                    else
                      let back_index = (front_index q2 + count q2) smod capacity q2
                      in (case data q2 of
                            None \<Rightarrow> Inl NullPointer
                          | Some d \<Rightarrow>
                              if back_index < 0 \<or> int (length d) \<le> back_index
                              then Inl OutOfBounds
                              else if \<not> s32_range (count q2 + 1) then Inl SignedOverflow
                              else Inr (Unlock (q2\<lparr>data := Some (d[nat back_index := Some element]),
                                                    count := count q2 + 1\<rparr>)))))"

text \<open>\<^verbatim>\<open>data[i]\<close> read as a value.\<close>

definition read_data :: "ThreadSafeQueue \<Rightarrow> int \<Rightarrow> error + FileChange" where
  "read_data q i =
     (case data q of
        None \<Rightarrow> Inl NullPointer
      | Some d \<Rightarrow>
          if i < 0 \<or> int (length d) \<le> i then Inl OutOfBounds
          else (case d ! nat i of None \<Rightarrow> Inl UninitialisedRead | Some x \<Rightarrow> Inr x))"

text \<open>
  \<^verbatim>\<open>bool Pop(FileChange* element)\<close>: the result \<open>Some x\<close> stands for \<^verbatim>\<open>true\<close> with
  \<^verbatim>\<open>*element = x\<close>, the result \<open>None\<close> for \<^verbatim>\<open>false\<close> with \<^verbatim>\<open>*element\<close> untouched; the
  pointer is the place of the result, so it is not null and \<^verbatim>\<open>assert(element)\<close> holds.
  The \<^verbatim>\<open>&&\<close> of \<^verbatim>\<open>has_split_rename\<close> reads the front cell only when \<^verbatim>\<open>count == 1\<close>.
\<close>

definition Pop :: "ThreadSafeQueue \<Rightarrow> (error + FileChange option \<times> ThreadSafeQueue) option" where
  "Pop q =
     (case Lock q of
        None \<Rightarrow> None
      | Some q1 \<Rightarrow>
          Some (case (if count q1 = 1
                      then (case read_data q1 (front_index q1) of
                              Inl e \<Rightarrow> Inl e
                            | Inr x \<Rightarrow> Inr (action x = RenamedFrom))
                      else Inr False) of
                  Inl e \<Rightarrow> Inl e
                | Inr has_split_rename \<Rightarrow>
                    if count q1 \<noteq> 0 \<and> \<not> has_split_rename then
                      (case read_data q1 (front_index q1) of
                         Inl e \<Rightarrow> Inl e
                       | Inr x \<Rightarrow>
                           if \<not> s32_range (count q1 - 1) \<or> \<not> s32_range (front_index q1 + 1)
                           then Inl SignedOverflow
                           else if capacity q1 = 0 then Inl DivideByZero
                           else Inr (Some x,
                                     Unlock (q1\<lparr>count := count q1 - 1,
                                                front_index := (front_index q1 + 1) smod capacity q1\<rparr>)))
                    else Inr (None, Unlock q1)))"

definition Destroy :: "ThreadSafeQueue \<Rightarrow> ThreadSafeQueue option" where
  "Destroy q =
     (case Lock q of
        None \<Rightarrow> None
      | Some q1 \<Rightarrow> Some (Unlock (q1\<lparr>data := None, count := 0, capacity := 0, front_index := 0\<rparr>)))"

subsection \<open>The logical content of the queue\<close>

text \<open>
  The cells at the indices \<open>(front_index + i) mod capacity\<close> for \<open>i < count\<close>, front first,
  and the records they hold.
\<close>

definition cells :: "ThreadSafeQueue \<Rightarrow> FileChange option list" where
  "cells q =
     (case data q of
        None \<Rightarrow> []
      | Some d \<Rightarrow>
          map (\<lambda>i. d ! ((nat (front_index q) + i) mod nat (capacity q))) [0..<nat (count q)])"

definition elements :: "ThreadSafeQueue \<Rightarrow> FileChange list" where
  "elements q = map the (cells q)"

text \<open>
  The invariant of a live queue: the array has \<open>capacity\<close> cells, \<open>0 \<le> count \<le> capacity\<close>,
  the front index is inside the array, and every logical cell has been written.
\<close>

definition queue_ok :: "ThreadSafeQueue \<Rightarrow> bool" where
  "queue_ok q =
     ((case data q of None \<Rightarrow> False | Some d \<Rightarrow> int (length d) = capacity q) \<and>
      0 < capacity q \<and> s32_range (capacity q) \<and>
      0 \<le> count q \<and> count q \<le> capacity q \<and>
      0 \<le> front_index q \<and> front_index q < capacity q \<and>
      list_all (\<lambda>c. c \<noteq> None) (cells q))"

definition queue_inv :: "ThreadSafeQueue \<Rightarrow> bool" where
  "queue_inv q = (lock q = 0 \<and> queue_ok q)"

text \<open>A sequence of \<^verbatim>\<open>Push\<close> and \<^verbatim>\<open>Pop\<close> calls, and the records its \<^verbatim>\<open>Pop\<close>s hand out.\<close>

datatype queue_op = Push_op FileChange | Pop_op

fun pushed :: "queue_op list \<Rightarrow> FileChange list" where
  "pushed [] = []"
| "pushed (Push_op x # ops) = x # pushed ops"
| "pushed (Pop_op # ops) = pushed ops"

fun run_queue ::
  "ThreadSafeQueue \<Rightarrow> queue_op list \<Rightarrow> (error + FileChange list \<times> ThreadSafeQueue) option" where
  "run_queue q [] = Some (Inr ([], q))"
| "run_queue q (Push_op x # ops) =
     (case Push q x of
        None \<Rightarrow> None
      | Some (Inl e) \<Rightarrow> Some (Inl e)
      | Some (Inr q1) \<Rightarrow> run_queue q1 ops)"
| "run_queue q (Pop_op # ops) =
     (case Pop q of
        None \<Rightarrow> None
      | Some (Inl e) \<Rightarrow> Some (Inl e)
      | Some (Inr (r, q1)) \<Rightarrow>
          (case run_queue q1 ops of
             None \<Rightarrow> None
           | Some (Inl e) \<Rightarrow> Some (Inl e)
           | Some (Inr (out, q2)) \<Rightarrow>
               Some (Inr ((case r of None \<Rightarrow> [] | Some x \<Rightarrow> [x]) @ out, q2))))"

text \<open>When \<^verbatim>\<open>Push\<close> can complete: the doubling, or the index sum, stays an \<^verbatim>\<open>s32\<close>.\<close>

definition push_fits :: "ThreadSafeQueue \<Rightarrow> bool" where
  "push_fits q =
     (if count q = capacity q then s32_range (capacity q * 2)
      else s32_range (front_index q + count q))"

text \<open>The states in which \<^verbatim>\<open>Pop\<close> hands out nothing: empty, or a lone \<^verbatim>\<open>RenamedFrom\<close>.\<close>

definition pop_withheld :: "ThreadSafeQueue \<Rightarrow> bool" where
  "pop_withheld q =
     (count q = 0 \<or> (count q = 1 \<and> action (hd (elements q)) = RenamedFrom))"

text \<open>Concrete data for the examples: a record, a queue of two cells, a run that wraps and grows.\<close>

definition rec_of :: "EFileAction \<Rightarrow> int \<Rightarrow> FileChange" where
  "rec_of a n = FileChange_zero\<lparr>action := a, path_length := n\<rparr>"

definition small_queue :: ThreadSafeQueue where
  "small_queue =
     \<lparr>lock = 0, data = Some [None, None], capacity = 2, count = 0, front_index = 0\<rparr>"

definition demo_ops :: "queue_op list" where
  "demo_ops =
     [Push_op (rec_of Added 1), Push_op (rec_of Modified 2), Pop_op,
      Push_op (rec_of RenamedFrom 3), Push_op (rec_of RenamedTo 4),
      Pop_op, Pop_op, Pop_op, Pop_op]"

definition demo_final :: ThreadSafeQueue where
  "demo_final =
     \<lparr>lock = 0,
      data = Some [Some (rec_of Modified 2), Some (rec_of RenamedFrom 3),
                   Some (rec_of RenamedTo 4), None],
      capacity = 4, count = 0, front_index = 3\<rparr>"

definition lone_rename :: ThreadSafeQueue where
  "lone_rename =
     \<lparr>lock = 0, data = Some [None, Some (rec_of RenamedFrom 7)], capacity = 2, count = 1,
      front_index = 1\<rparr>"

section \<open>The notification decoder\<close>

text \<open>
  Constants that the source takes from the Windows SDK headers (\<^verbatim>\<open>#include <Windows.h>\<close>),
  with the values of \<^verbatim>\<open>minwindef.h\<close>, \<^verbatim>\<open>winnt.h\<close> and \<^verbatim>\<open>winerror.h\<close>.
\<close>

definition MAX_PATH :: int where
  "MAX_PATH = 260"

definition FILE_ACTION_ADDED :: u32 where
  "FILE_ACTION_ADDED = 1"

definition FILE_ACTION_REMOVED :: u32 where
  "FILE_ACTION_REMOVED = 2"

definition FILE_ACTION_MODIFIED :: u32 where
  "FILE_ACTION_MODIFIED = 3"

definition FILE_ACTION_RENAMED_OLD_NAME :: u32 where
  "FILE_ACTION_RENAMED_OLD_NAME = 4"

definition FILE_ACTION_RENAMED_NEW_NAME :: u32 where
  "FILE_ACTION_RENAMED_NEW_NAME = 5"

definition FILE_ATTRIBUTE_DIRECTORY :: u32 where
  "FILE_ATTRIBUTE_DIRECTORY = 16"

definition ERROR_OPERATION_ABORTED :: u32 where
  "ERROR_OPERATION_ABORTED = 995"

definition backslash :: char16 where
  "backslash = 92"

text \<open>
  The fields of \<^verbatim>\<open>FILE_NOTIFY_EXTENDED_INFORMATION\<close> that the decoder reads. \<^verbatim>\<open>FileName\<close>
  is the list of the \<^verbatim>\<open>FileNameLength / 2\<close> UTF-16 code units of the entry; the
  \<^verbatim>\<open>QuadPart\<close> of a \<^verbatim>\<open>LARGE_INTEGER\<close> is kept as the 64 bits that the assignment to a
  \<^verbatim>\<open>u64\<close> field preserves.
\<close>

record FILE_NOTIFY_EXTENDED_INFORMATION =
  NextEntryOffset :: u32
  Action :: u32
  CreationTime :: u64
  LastModificationTime :: u64
  LastChangeTime :: u64
  LastAccessTime :: u64
  FileSize :: u64
  FileAttributes :: u32
  FileName :: "char16 list"

text \<open>
  A notification buffer is raw memory that the operating system fills with entries. The
  model keeps the entries by the byte offset at which they start; a read at any other
  offset is outside of what the system wrote.
\<close>

type_synonym notify_buffer = "(int \<times> FILE_NOTIFY_EXTENDED_INFORMATION) list"

text \<open>
  \<^verbatim>\<open>WideCharToMultiByte(CP_UTF8, 0, src, n, dst, cb, 0, 0)\<close> is a primitive of the operating
  system. The encoder it applies to the \<open>n\<close> code units is the parameter \<open>utf8\<close>; the call
  yields the bytes and their number, or writes nothing and yields 0 when there is no input
  or the bytes do not fit into \<open>cb\<close>.
\<close>

definition WideCharToMultiByte :: "(char16 list \<Rightarrow> string) \<Rightarrow> char16 list \<Rightarrow> int \<Rightarrow> string \<times> int" where
  "WideCharToMultiByte utf8 src cbMultiByte =
     (if src \<noteq> [] \<and> int (length (utf8 src)) \<le> cbMultiByte
      then (utf8 src, int (length (utf8 src)))
      else ([], 0))"

text \<open>The string that a zero-initialised \<^verbatim>\<open>char\<close> array holds: the bytes in front of the first NUL.\<close>

definition c_string :: "string \<Rightarrow> string" where
  "c_string bytes = takeWhile (\<lambda>c. c \<noteq> CHR 0x00) bytes"

text \<open>
  Lines 148 to 155 of \<^verbatim>\<open>ProcessNotification\<close>: the directory path is copied into
  \<^verbatim>\<open>char16_t combined_path[MAX_PATH]\<close>, a separator is appended unless the last unit is one,
  the file name is copied behind it and a terminator is written. The array has \<^verbatim>\<open>MAX_PATH\<close>
  units: each write past its end, and the read of \<^verbatim>\<open>combined_path[-1]\<close> for an empty
  directory path, is an error of the model.
\<close>

definition combine_path :: "char16 list \<Rightarrow> char16 list \<Rightarrow> error + char16 list" where
  "combine_path directory_path file_name =
     (if MAX_PATH < int (length directory_path) then Inl OutOfBounds
      else if directory_path = [] then Inl OutOfBounds
      else
        let combined_path =
              (if last directory_path \<noteq> backslash then directory_path @ [backslash]
               else directory_path)
        in if MAX_PATH \<le> int (length combined_path) + int (length file_name)
           then Inl OutOfBounds
           else Inr (combined_path @ file_name))"

text \<open>The \<^verbatim>\<open>switch (event->Action)\<close>.\<close>

definition action_of :: "u32 \<Rightarrow> EFileAction" where
  "action_of a =
     (if a = FILE_ACTION_ADDED then Added
      else if a = FILE_ACTION_REMOVED then Removed
      else if a = FILE_ACTION_MODIFIED then Modified
      else if a = FILE_ACTION_RENAMED_OLD_NAME then RenamedFrom
      else if a = FILE_ACTION_RENAMED_NEW_NAME then RenamedTo
      else None_action)"

text \<open>
  Lines 170 to 180: the record for one entry. The conversion includes the terminator of
  \<^verbatim>\<open>combined_path\<close>, which is why \<^verbatim>\<open>path_length\<close> is the result minus one.
\<close>

definition change_of ::
  "(char16 list \<Rightarrow> string) \<Rightarrow> char16 list \<Rightarrow> FILE_NOTIFY_EXTENDED_INFORMATION \<Rightarrow> FileChange" where
  "change_of utf8 combined_path event =
     (let converted = WideCharToMultiByte utf8 (combined_path @ [0]) (MAX_PATH * 3)
      in FileChange_zero
           \<lparr>creation_time := CreationTime event,
            modification_time := LastModificationTime event,
            change_time := LastChangeTime event,
            access_time := LastAccessTime event,
            size_bytes := FileSize event,
            attributes := FileAttributes event,
            action := action_of (Action event),
            is_directory := (FileAttributes event AND FILE_ATTRIBUTE_DIRECTORY \<noteq> 0),
            path_length := snd converted - 1,
            path := c_string (fst converted)\<rparr>)"

text \<open>
  The \<^verbatim>\<open>do ... while (event->NextEntryOffset)\<close> loop, from the offset it has reached.
  \<^verbatim>\<open>offset\<close> is an \<^verbatim>\<open>s32\<close> to which the unsigned \<^verbatim>\<open>NextEntryOffset\<close> is added; a sum
  outside of the \<^verbatim>\<open>s32\<close> range is an error of the model.
\<close>

function ProcessNotification_loop ::
  "(char16 list \<Rightarrow> string) \<Rightarrow> notify_buffer \<Rightarrow> char16 list \<Rightarrow> int \<Rightarrow> ThreadSafeQueue
     \<Rightarrow> (error + ThreadSafeQueue) option" where
  "ProcessNotification_loop utf8 buffer directory_path offset q =
     (case map_of buffer offset of
        None \<Rightarrow> Some (Inl OutOfBounds)
      | Some event \<Rightarrow>
          if \<not> s32_range (offset + uint (NextEntryOffset event)) then Some (Inl SignedOverflow)
          else
            (case combine_path directory_path (FileName event) of
               Inl e \<Rightarrow> Some (Inl e)
             | Inr combined_path \<Rightarrow>
                 (case Push q (change_of utf8 combined_path event) of
                    None \<Rightarrow> None
                  | Some (Inl e) \<Rightarrow> Some (Inl e)
                  | Some (Inr q1) \<Rightarrow>
                      if NextEntryOffset event \<noteq> 0
                      then ProcessNotification_loop utf8 buffer directory_path
                             (offset + uint (NextEntryOffset event)) q1
                      else Some (Inr q1))))"
  by pat_completeness auto
termination
proof (relation "measure (\<lambda>(utf8, buffer, directory_path, offset, q).
                    nat (Max (insert 0 (fst ` set buffer)) + 1 - offset))")
  show "wf (measure (\<lambda>(utf8, buffer, directory_path, offset, q).
                    nat (Max (insert 0 (fst ` set buffer)) + 1 - offset)))"
    by simp
next
  fix utf8 :: "char16 list \<Rightarrow> string" and buffer :: notify_buffer
    and directory_path :: "char16 list" and offset :: int and q q1 :: ThreadSafeQueue
    and event combined_path x2 xa
  assume ev: "map_of buffer offset = Some event" and nz: "NextEntryOffset event \<noteq> 0"
  have "offset \<in> fst ` set buffer"
    using ev by (metis map_of_SomeD fst_conv image_eqI)
  then have "offset \<le> Max (insert 0 (fst ` set buffer))"
    by simp
  moreover have "0 < uint (NextEntryOffset event)"
    using nz uint_0_iff [of "NextEntryOffset event"] uint_le_0_iff [of "NextEntryOffset event"]
    by linarith
  ultimately show "((utf8, buffer, directory_path, offset + uint (NextEntryOffset event), q1),
                    (utf8, buffer, directory_path, offset, q))
                   \<in> measure (\<lambda>(utf8, buffer, directory_path, offset, q).
                        nat (Max (insert 0 (fst ` set buffer)) + 1 - offset))"
    by simp
qed

text \<open>
  \<^verbatim>\<open>ProcessNotification(buffer, directory_path, directory_path_length)\<close>, on the queue of
  the watcher. \<open>None\<close> is the null buffer; the pair of pointer and length of the directory
  path is the list of its units. In the overflow branch the terminator is written at
  \<^verbatim>\<open>change.path[change.path_length]\<close>, inside the array only below \<^verbatim>\<open>MAX_PATH * 3\<close>.
\<close>

definition ProcessNotification ::
  "(char16 list \<Rightarrow> string) \<Rightarrow> notify_buffer option \<Rightarrow> char16 list \<Rightarrow> ThreadSafeQueue
     \<Rightarrow> (error + ThreadSafeQueue) option" where
  "ProcessNotification utf8 buffer directory_path q =
     (case buffer of
        None \<Rightarrow>
          let converted = WideCharToMultiByte utf8 directory_path (MAX_PATH * 3)
          in if MAX_PATH * 3 \<le> snd converted then Some (Inl OutOfBounds)
             else Push q (FileChange_zero
                            \<lparr>action := TooManyChanges, is_directory := True,
                             path_length := snd converted,
                             path := c_string (fst converted)\<rparr>)
      | Some b \<Rightarrow> ProcessNotification_loop utf8 b directory_path 0 q)"

text \<open>
  For the examples: UTF-16 code units of an ASCII string, and an encoder that agrees with
  UTF-8 on code units below 128.
\<close>

definition wide :: "string \<Rightarrow> char16 list" where
  "wide s = map of_char s"

definition ascii_utf8 :: "char16 list \<Rightarrow> string" where
  "ascii_utf8 ws = map (\<lambda>w. char_of (unat w)) ws"

text \<open>
  The entries that the loop visits from an offset, in order: the chain of
  \<^verbatim>\<open>NextEntryOffset\<close>s up to the entry that holds 0.
\<close>

function notify_entries ::
  "notify_buffer \<Rightarrow> int \<Rightarrow> error + FILE_NOTIFY_EXTENDED_INFORMATION list" where
  "notify_entries buffer offset =
     (case map_of buffer offset of
        None \<Rightarrow> Inl OutOfBounds
      | Some event \<Rightarrow>
          if \<not> s32_range (offset + uint (NextEntryOffset event)) then Inl SignedOverflow
          else if NextEntryOffset event \<noteq> 0
          then (case notify_entries buffer (offset + uint (NextEntryOffset event)) of
                  Inl e \<Rightarrow> Inl e
                | Inr events \<Rightarrow> Inr (event # events))
          else Inr [event])"
  by pat_completeness auto
termination
proof (relation "measure (\<lambda>(buffer, offset).
                    nat (Max (insert 0 (fst ` set buffer)) + 1 - offset))")
  show "wf (measure (\<lambda>(buffer, offset). nat (Max (insert 0 (fst ` set buffer)) + 1 - offset)))"
    by simp
next
  fix buffer :: notify_buffer and offset :: int and event
  assume ev: "map_of buffer offset = Some event" and nz: "NextEntryOffset event \<noteq> 0"
  have "offset \<in> fst ` set buffer"
    using ev by (metis map_of_SomeD fst_conv image_eqI)
  then have "offset \<le> Max (insert 0 (fst ` set buffer))"
    by simp
  moreover have "0 < uint (NextEntryOffset event)"
    using nz uint_0_iff [of "NextEntryOffset event"] uint_le_0_iff [of "NextEntryOffset event"]
    by linarith
  ultimately show "((buffer, offset + uint (NextEntryOffset event)), (buffer, offset))
                   \<in> measure (\<lambda>(buffer, offset).
                        nat (Max (insert 0 (fst ` set buffer)) + 1 - offset))"
    by simp
qed

text \<open>The record that the loop pushes for an entry whose combined path fits.\<close>

definition entry_change ::
  "(char16 list \<Rightarrow> string) \<Rightarrow> char16 list \<Rightarrow> FILE_NOTIFY_EXTENDED_INFORMATION \<Rightarrow> FileChange" where
  "entry_change utf8 directory_path event =
     change_of utf8
       (directory_path @ (if last directory_path = backslash then [] else [backslash])
          @ FileName event)
       event"

definition path_fits :: "char16 list \<Rightarrow> FILE_NOTIFY_EXTENDED_INFORMATION \<Rightarrow> bool" where
  "path_fits directory_path event =
     (directory_path \<noteq> [] \<and>
      int (length directory_path) + (if last directory_path = backslash then 0 else 1)
        + int (length (FileName event)) < MAX_PATH)"

text \<open>A file entry and two buffers for the examples.\<close>

definition file_entry :: "u32 \<Rightarrow> u32 \<Rightarrow> string \<Rightarrow> FILE_NOTIFY_EXTENDED_INFORMATION" where
  "file_entry next_offset a name =
     \<lparr>NextEntryOffset = next_offset, Action = a, CreationTime = 100,
      LastModificationTime = 200, LastChangeTime = 300, LastAccessTime = 400,
      FileSize = 12, FileAttributes = 32, FileName = wide name\<rparr>"

definition one_entry_buffer :: notify_buffer where
  "one_entry_buffer = [(0, file_entry 0 FILE_ACTION_ADDED ''a.txt'')]"

definition rename_buffer :: notify_buffer where
  "rename_buffer =
     [(0, file_entry 96 FILE_ACTION_RENAMED_OLD_NAME ''old.txt''),
      (96, file_entry 0 FILE_ACTION_RENAMED_NEW_NAME ''new.txt'')]"

definition data_dir :: "char16 list" where
  "data_dir = wide [CHR ''C'', CHR '':'', CHR 0x5C, CHR ''d'', CHR ''a'', CHR ''t'', CHR ''a'']"

definition data_dir_sep :: "char16 list" where
  "data_dir_sep = data_dir @ [backslash]"

definition data_a_txt :: string where
  "data_a_txt =
     [CHR ''C'', CHR '':'', CHR 0x5C, CHR ''d'', CHR ''a'', CHR ''t'', CHR ''a'', CHR 0x5C,
      CHR ''a'', CHR ''.'', CHR ''t'', CHR ''x'', CHR ''t'']"

definition unknown_action_buffer :: notify_buffer where
  "unknown_action_buffer = [(0, file_entry 0 77 ''a.txt'')]"

text \<open>The state in which a run of the decoder on the small queue ends (the queue itself when it fails).\<close>

definition decoded :: "notify_buffer \<Rightarrow> char16 list \<Rightarrow> ThreadSafeQueue" where
  "decoded buffer directory_path =
     (case ProcessNotification ascii_utf8 (Some buffer) directory_path small_queue of
        Some (Inr q') \<Rightarrow> q'
      | _ \<Rightarrow> small_queue)"

section \<open>Watch requests, the worker thread and the facade\<close>

text \<open>
  A \<^verbatim>\<open>ReadChangesRequest\<close> lives in a \<^verbatim>\<open>malloc\<close>ed block and is reached through its address
  from the request list, from the queued start-up job and from the \<^verbatim>\<open>OVERLAPPED\<close> of its
  reads. The model keeps the blocks in a store from addresses to requests; the singly
  linked list through \<^verbatim>\<open>next\<close> is the list of the addresses in list order. \<open>buffers\<close> is the
  memory of the two change buffers: what the operating system has written, by the byte
  offset of the buffer it wrote to. \<open>request_path\<close> is \<^verbatim>\<open>path\<close> with \<^verbatim>\<open>path_length\<close>; the field
  \<^verbatim>\<open>watcher\<close> points to the one watcher of the model.
\<close>

type_synonym addr = nat
type_synonym handle = nat

record ReadChangesRequest =
  buffers :: "int \<rightharpoonup> notify_buffer"
  request_path :: "char16 list"
  buffer_size :: int
  buffer_index :: int
  is_recursive :: bool
  directory :: handle

record DirectoryWatcher =
  queue :: ThreadSafeQueue
  requests :: "addr list"
  thread_handle :: "handle option"
  should_terminate :: bool
  outstanding_request_count :: u32

text \<open>
  The watcher together with the part of the process and of the operating system that its
  code acts on: the addresses of the blocks that \<^verbatim>\<open>malloc\<close> has handed out and \<^verbatim>\<open>free\<close> has
  not taken back, the store of the requests in them, the open handles, the reads that
  \<^verbatim>\<open>ReadDirectoryChangesExW\<close> has started and that have not completed (request and byte
  offset of the target buffer, oldest first), the jobs queued by \<^verbatim>\<open>QueueUserAPC\<close> that the
  worker thread has not run, and whether the worker thread is still inside \<^verbatim>\<open>ThreadProc\<close>.
\<close>

record system = DirectoryWatcher +
  blocks :: "addr list"
  heap :: "addr \<rightharpoonup> ReadChangesRequest"
  open_handles :: "handle set"
  next_handle :: handle
  pending_reads :: "(addr \<times> int) list"
  pending_apcs :: "addr list"
  thread_running :: bool

text \<open>
  The primitives of the operating system whose results the code depends on: the two string
  conversions (\<open>None\<close>: \<^verbatim>\<open>MultiByteToWideChar\<close> returns 0) and whether \<^verbatim>\<open>CreateFileW\<close> opens a
  path.
\<close>

record primitives =
  to_utf8 :: "char16 list \<Rightarrow> string"
  to_utf16 :: "string \<Rightarrow> char16 list option"
  can_open :: "char16 list \<Rightarrow> bool"

text \<open>\<^verbatim>\<open>DirectoryWatcher watcher = {};\<close> in a process that has allocated and opened nothing.\<close>

definition zero_watcher :: system where
  "zero_watcher =
     \<lparr>queue = \<lparr>lock = 0, data = None, capacity = 0, count = 0, front_index = 0\<rparr>,
      requests = [], thread_handle = None, should_terminate = False,
      outstanding_request_count = 0,
      blocks = [], heap = Map.empty, open_handles = {}, next_handle = 100,
      pending_reads = [], pending_apcs = [], thread_running = False\<rparr>"

text \<open>
  \<^verbatim>\<open>malloc\<close> is taken to succeed (the source asserts its result in \<^verbatim>\<open>AddDirectory\<close>): it
  hands out an address above those of the blocks in use, from 4096 on. \<^verbatim>\<open>free\<close> takes the
  block back, with what it holds.
\<close>

definition malloc :: "system \<Rightarrow> addr \<times> system" where
  "malloc w =
     (let memory = Suc (fold max (blocks w) 4095)
      in (memory, w\<lparr>blocks := memory # blocks w\<rparr>))"

definition free :: "system \<Rightarrow> addr \<Rightarrow> system" where
  "free w a = w\<lparr>blocks := remove1 a (blocks w), heap := (heap w)(a := None)\<rparr>"

text \<open>\<^verbatim>\<open>CreateThread\<close> is taken to succeed: it opens a handle and starts \<^verbatim>\<open>ThreadProc\<close>.\<close>

definition Initialize :: "system \<Rightarrow> system" where
  "Initialize w =
     w\<lparr>requests := [], should_terminate := False, outstanding_request_count := 0,
       queue := Create, thread_handle := Some (next_handle w),
       open_handles := insert (next_handle w) (open_handles w),
       next_handle := Suc (next_handle w), thread_running := True\<rparr>"

text \<open>
  \<^verbatim>\<open>BeginRead\<close>. The read targets the \<^verbatim>\<open>buffer_size\<close> bytes at
  \<^verbatim>\<open>buffers + buffer_size * buffer_index\<close>, which lie inside the two buffers only for the
  indices 0 and 1. \<^verbatim>\<open>ReadDirectoryChangesExW\<close> starts a read when the directory handle is
  open; the code does not look at its result.
\<close>

definition BeginRead :: "system \<Rightarrow> addr \<Rightarrow> error + system" where
  "BeginRead w request =
     (case heap w request of
        None \<Rightarrow> Inl UseAfterFree
      | Some r \<Rightarrow>
          if \<not> s32_range (buffer_size r * buffer_index r) then Inl SignedOverflow
          else
            let buffer = buffer_size r * buffer_index r
            in if buffer < 0 \<or> 2 * buffer_size r < buffer + buffer_size r then Inl OutOfBounds
               else
                 let w1 = w\<lparr>heap := (heap w)(request \<mapsto> r\<lparr>buffer_index := buffer_index r XOR 1\<rparr>)\<rparr>
                 in Inr (if directory r \<in> open_handles w
                         then w1\<lparr>pending_reads := pending_reads w @ [(request, buffer)]\<rparr>
                         else w1))"

definition ThreadAddDirectoryProc :: "system \<Rightarrow> addr \<Rightarrow> error + system" where
  "ThreadAddDirectoryProc w request =
     (case heap w request of
        None \<Rightarrow> Inl UseAfterFree
      | Some r \<Rightarrow>
          BeginRead (w\<lparr>outstanding_request_count := outstanding_request_count w + 1\<rparr>) request)"

text \<open>
  Lines 116 to 122 of \<^verbatim>\<open>NotificationCompletion\<close>, reached when the completion is neither a
  cancellation nor an error: the pointer to the buffer at \<^verbatim>\<open>buffer_index ^ 1\<close> is taken,
  \<^verbatim>\<open>BeginRead\<close> is called, and then the buffer (or the null pointer) is decoded.
\<close>

definition NotificationCompletion_process ::
  "primitives \<Rightarrow> system \<Rightarrow> u32 \<Rightarrow> u32 \<Rightarrow> addr \<Rightarrow> (error + system) option" where
  "NotificationCompletion_process os w error_code bytes_transferred request =
     (case heap w request of
        None \<Rightarrow> Some (Inl UseAfterFree)
      | Some r \<Rightarrow>
          let did_overflow = (error_code = 0 \<and> bytes_transferred = 0);
              buffer = buffer_size r * (buffer_index r XOR 1)
          in (case BeginRead w request of
                Inl e \<Rightarrow> Some (Inl e)
              | Inr w1 \<Rightarrow>
                  (case heap w1 request of
                     None \<Rightarrow> Some (Inl UseAfterFree)
                   | Some r1 \<Rightarrow>
                       (case (if did_overflow then Inr None
                              else (case buffers r1 buffer of
                                      None \<Rightarrow> Inl UninitialisedRead
                                    | Some b \<Rightarrow> Inr (Some b))) of
                          Inl e \<Rightarrow> Some (Inl e)
                        | Inr b \<Rightarrow>
                            (case ProcessNotification (to_utf8 os) b (request_path r1) (queue w1) of
                               None \<Rightarrow> None
                             | Some (Inl e) \<Rightarrow> Some (Inl e)
                             | Some (Inr q1) \<Rightarrow> Some (Inr (w1\<lparr>queue := q1\<rparr>)))))))"

text \<open>
  \<^verbatim>\<open>NotificationCompletion(error_code, bytes_transferred, overlapped)\<close>, with the request
  that \<^verbatim>\<open>overlapped->hEvent\<close> holds.
\<close>

definition NotificationCompletion ::
  "primitives \<Rightarrow> system \<Rightarrow> u32 \<Rightarrow> u32 \<Rightarrow> addr \<Rightarrow> (error + system) option" where
  "NotificationCompletion os w error_code bytes_transferred request =
     (case heap w request of
        None \<Rightarrow> Some (Inl UseAfterFree)
      | Some r \<Rightarrow>
          if error_code = ERROR_OPERATION_ABORTED \<or> should_terminate w
          then Some (Inr (free (w\<lparr>outstanding_request_count :=
                                       outstanding_request_count w - 1\<rparr>) request))
          else if error_code \<noteq> 0 then Some (Inl AssertionFailed)
          else NotificationCompletion_process os w error_code bytes_transferred request)"

text \<open>
  \<^verbatim>\<open>AddDirectory\<close>. \<open>None\<close> is the null pointer for \<^verbatim>\<open>directory\<close>. The allocation size is
  computed in \<^verbatim>\<open>s32\<close> before it is widened. The request enters the store when all of its
  fields are set, which is in the branch of the valid handle. The walk to the end of the
  list reads the \<^verbatim>\<open>next\<close> field of every request in it. \<^verbatim>\<open>QueueUserAPC\<close> queues the job
  when the thread handle is open and the thread is running; the code does not look at its
  result.
\<close>

definition AddDirectory ::
  "primitives \<Rightarrow> system \<Rightarrow> string option \<Rightarrow> bool \<Rightarrow> int \<Rightarrow> error + bool \<times> system" where
  "AddDirectory os w directory' is_recursive' change_buffer_size =
     (case (thread_handle w, directory') of
        (Some thread, Some dir) \<Rightarrow>
          if change_buffer_size \<le> 0 then Inl AssertionFailed
          else
            let path_count = (case to_utf16 os dir of None \<Rightarrow> 0 | Some ws \<Rightarrow> int (length ws) + 1)
            in if \<not> s32_range (2 * change_buffer_size) \<or> \<not> s32_range (2 * path_count)
               then Inl SignedOverflow
               else
                 (case to_utf16 os dir of
                    None \<Rightarrow> Inl AssertionFailed
                  | Some ws \<Rightarrow>
                      let memory = fst (malloc w);
                          w1 = snd (malloc w)
                      in if can_open os ws then
                           if \<not> list_all (\<lambda>a. heap w a \<noteq> None) (requests w) then Inl UseAfterFree
                           else
                             Inr (True,
                                  w1\<lparr>heap := (heap w)(memory \<mapsto>
                                         \<lparr>buffers = Map.empty, request_path = ws,
                                          buffer_size = change_buffer_size, buffer_index = 0,
                                          is_recursive = is_recursive',
                                          directory = next_handle w\<rparr>),
                                      open_handles := insert (next_handle w) (open_handles w),
                                      next_handle := Suc (next_handle w),
                                      requests := requests w @ [memory],
                                      pending_apcs :=
                                        (if thread \<in> open_handles w \<and> thread_running w
                                         then pending_apcs w @ [memory]
                                         else pending_apcs w)\<rparr>)
                         else Inr (False, free w1 memory))
      | _ \<Rightarrow> Inl AssertionFailed)"

definition TryGetNextChange :: "system \<Rightarrow> (error + FileChange option \<times> system) option" where
  "TryGetNextChange w =
     (case Pop (queue w) of
        None \<Rightarrow> None
      | Some (Inl e) \<Rightarrow> Some (Inl e)
      | Some (Inr (r, q1)) \<Rightarrow> Some (Inr (r, w\<lparr>queue := q1\<rparr>)))"

text \<open>
  The loop of \<^verbatim>\<open>ShutDown\<close> over the request list. \<^verbatim>\<open>CancelIo\<close> changes nothing in the model:
  a read that it cancels still completes, with \<^verbatim>\<open>ERROR_OPERATION_ABORTED\<close>, through its
  completion routine on the worker thread.
\<close>

fun ShutDown_loop :: "system \<Rightarrow> addr list \<Rightarrow> error + system" where
  "ShutDown_loop w [] = Inr w"
| "ShutDown_loop w (current # rest) =
     (case heap w current of
        None \<Rightarrow> Inl UseAfterFree
      | Some request \<Rightarrow>
          ShutDown_loop (w\<lparr>open_handles := open_handles w - {directory request}\<rparr>) rest)"

text \<open>
  \<^verbatim>\<open>ShutDown\<close>. \<^verbatim>\<open>CloseHandle(thread_handle)\<close> closes the handle; it neither stops the thread
  nor waits for it.
\<close>

definition ShutDown :: "system \<Rightarrow> (error + system) option" where
  "ShutDown w =
     (case ShutDown_loop (w\<lparr>should_terminate := True\<rparr>) (requests w) of
        Inl e \<Rightarrow> Some (Inl e)
      | Inr w1 \<Rightarrow>
          let w2 = (case thread_handle w1 of
                      None \<Rightarrow> w1
                    | Some thread \<Rightarrow> w1\<lparr>open_handles := open_handles w1 - {thread}\<rparr>)
          in (case Destroy (queue w2) of
                None \<Rightarrow> None
              | Some q1 \<Rightarrow> Some (Inr (w2\<lparr>queue := q1\<rparr>))))"

text \<open>
  \<^verbatim>\<open>ThreadProc\<close>: the condition of its loop, and what the thread does when \<^verbatim>\<open>SleepEx\<close> has
  returned and it tests the condition.
\<close>

definition ThreadProc_waits :: "system \<Rightarrow> bool" where
  "ThreadProc_waits w = (outstanding_request_count w \<noteq> 0 \<or> \<not> should_terminate w)"

definition ThreadProc_test :: "system \<Rightarrow> system" where
  "ThreadProc_test w = (if ThreadProc_waits w then w else w\<lparr>thread_running := False\<rparr>)"

text \<open>
  What happens on the worker thread, as events: the thread runs the oldest queued job
  (\<^verbatim>\<open>ThreadAddDirectoryProc\<close>); the oldest read in flight for a request completes, the
  operating system having written the entries into the buffer of that read when it
  reports no error and some bytes, and the completion routine runs; the thread tests the
  condition of its loop. An event that has nothing to act on leaves the state as it is.
\<close>

datatype worker_event =
    Run_job
  | Read_completes addr u32 u32 notify_buffer
  | Loop_test

definition pending_buffers :: "system \<Rightarrow> addr \<Rightarrow> int list" where
  "pending_buffers w request = map snd (filter (\<lambda>p. fst p = request) (pending_reads w))"

definition read_completes ::
  "primitives \<Rightarrow> system \<Rightarrow> addr \<Rightarrow> u32 \<Rightarrow> u32 \<Rightarrow> notify_buffer \<Rightarrow> (error + system) option" where
  "read_completes os w request error_code bytes_transferred written =
     (case pending_buffers w request of
        [] \<Rightarrow> Some (Inr w)
      | buffer # _ \<Rightarrow>
          NotificationCompletion os
            (w\<lparr>pending_reads := remove1 (request, buffer) (pending_reads w),
               heap := (case heap w request of
                          None \<Rightarrow> heap w
                        | Some r \<Rightarrow>
                            if error_code = 0 \<and> bytes_transferred \<noteq> 0
                            then (heap w)(request \<mapsto> r\<lparr>buffers := (buffers r)(buffer \<mapsto> written)\<rparr>)
                            else heap w)\<rparr>)
            error_code bytes_transferred request)"

fun worker_step :: "primitives \<Rightarrow> system \<Rightarrow> worker_event \<Rightarrow> (error + system) option" where
  "worker_step os w Run_job =
     (case pending_apcs w of
        [] \<Rightarrow> Some (Inr w)
      | request # rest \<Rightarrow> Some (ThreadAddDirectoryProc (w\<lparr>pending_apcs := rest\<rparr>) request))"
| "worker_step os w (Read_completes request error_code bytes_transferred written) =
     read_completes os w request error_code bytes_transferred written"
| "worker_step os w Loop_test = Some (Inr (ThreadProc_test w))"

fun worker_run :: "primitives \<Rightarrow> system \<Rightarrow> worker_event list \<Rightarrow> (error + system) option" where
  "worker_run os w [] = Some (Inr w)"
| "worker_run os w (ev # evs) =
     (case worker_step os w ev of
        None \<Rightarrow> None
      | Some (Inl e) \<Rightarrow> Some (Inl e)
      | Some (Inr w1) \<Rightarrow> worker_run os w1 evs)"

text \<open>
  The state of one request between the events of the worker thread: the block is gone,
  or its buffer index is 0 or 1 and either its start-up job is queued (once) and no read
  is in flight, or the job has run and at most one read is in flight, into the buffer
  at the index \<^verbatim>\<open>buffer_index ^ 1\<close>.
\<close>

definition request_ok :: "system \<Rightarrow> addr \<Rightarrow> bool" where
  "request_ok w a =
     (case heap w a of
        None \<Rightarrow> True
      | Some r \<Rightarrow>
          0 < buffer_size r \<and> s32_range (buffer_size r) \<and>
          (buffer_index r = 0 \<or> buffer_index r = 1) \<and>
          (if a \<in> set (pending_apcs w)
           then count_list (pending_apcs w) a = 1 \<and> pending_buffers w a = []
           else pending_buffers w a = [] \<or>
                pending_buffers w a = [buffer_size r * (buffer_index r XOR 1)]))"

text \<open>
  The calls of the facade, as events of the thread that owns the watcher, and the runs of
  the whole system: calls and worker-thread events in any order, each of them atomic.
\<close>

datatype caller_call =
    Call_Initialize
  | Call_AddDirectory "string option" bool int
  | Call_TryGetNextChange
  | Call_ShutDown

datatype event = Caller caller_call | Worker worker_event

fun caller_step :: "primitives \<Rightarrow> system \<Rightarrow> caller_call \<Rightarrow> (error + system) option" where
  "caller_step os w Call_Initialize = Some (Inr (Initialize w))"
| "caller_step os w (Call_AddDirectory directory' is_recursive' change_buffer_size) =
     (case AddDirectory os w directory' is_recursive' change_buffer_size of
        Inl e \<Rightarrow> Some (Inl e)
      | Inr (result, w1) \<Rightarrow> Some (Inr w1))"
| "caller_step os w Call_TryGetNextChange =
     (case TryGetNextChange w of
        None \<Rightarrow> None
      | Some (Inl e) \<Rightarrow> Some (Inl e)
      | Some (Inr (result, w1)) \<Rightarrow> Some (Inr w1))"
| "caller_step os w Call_ShutDown = ShutDown w"

fun system_step :: "primitives \<Rightarrow> system \<Rightarrow> event \<Rightarrow> (error + system) option" where
  "system_step os w (Caller c) = caller_step os w c"
| "system_step os w (Worker ev) = worker_step os w ev"




text \<open>A scenario: an operating system in which exactly \<^verbatim>\<open>C:\data\<close> can be opened.\<close>

definition data_name :: string where
  "data_name = [CHR ''C'', CHR '':'', CHR 0x5C, CHR ''d'', CHR ''a'', CHR ''t'', CHR ''a'']"

definition os_demo :: primitives where
  "os_demo = \<lparr>to_utf8 = ascii_utf8, to_utf16 = (\<lambda>s. Some (wide s)),
              can_open = (\<lambda>p. p = data_dir)\<rparr>"

definition initialised :: system where
  "initialised = Initialize zero_watcher"

definition watching :: system where
  "watching =
     (case AddDirectory os_demo initialised (Some data_name) True 32768 of
        Inr (_, w) \<Rightarrow> w
      | Inl _ \<Rightarrow> initialised)"

definition armed :: system where
  "armed =
     (case worker_step os_demo watching Run_job of
        Some (Inr w) \<Rightarrow> w
      | _ \<Rightarrow> watching)"



definition armed_request :: ReadChangesRequest where
  "armed_request =
     \<lparr>buffers = Map.empty, request_path = data_dir, buffer_size = 32768, buffer_index = 1,
      is_recursive = True, directory = 101\<rparr>"

text \<open>
  The armed request with no read in flight; the state in which the operating system has
  completed the first read, with two entries in the buffer at offset 0; and the states
  after a \<^verbatim>\<open>ShutDown\<close> in the armed and in the completed state.
\<close>

definition idle :: system where
  "idle = armed\<lparr>pending_reads := []\<rparr>"

definition completed :: system where
  "completed =
     armed\<lparr>pending_reads := [],
           heap := [4096 \<mapsto> armed_request\<lparr>buffers := [0 \<mapsto> rename_buffer]\<rparr>]\<rparr>"

definition shut_down :: "system \<Rightarrow> system" where
  "shut_down w = (case ShutDown w of Some (Inr w1) \<Rightarrow> w1 | _ \<Rightarrow> w)"



section \<open>Properties of the queue\<close>

declare Lock.simps [code]

lemma Lock_free: "lock q = 0 \<Longrightarrow> Lock q = Some (q\<lparr>lock := 1\<rparr>)"
  by (subst Lock.simps) simp

lemma smod_nonneg: "0 \<le> a \<Longrightarrow> 0 < b \<Longrightarrow> (a::int) smod b = a mod b"
  by (simp add: smod_int_alt_def sgn_if)

lemma mod_window_neq:
  fixes f i j c :: nat
  assumes "i < j" "j < c"
  shows "(f + i) mod c \<noteq> (f + j) mod c"
proof
  assume "(f + i) mod c = (f + j) mod c"
  then have "(f + j) mod c = (f + i) mod c" by simp
  moreover have "f + i \<le> f + j" using assms by simp
  ultimately have "c dvd (f + j) - (f + i)"
    using mod_eq_dvd_iff_nat [of "f + i" "f + j" c] by blast
  then have "c dvd j - i" by simp
  moreover have "0 < j - i" "j - i < c" using assms by auto
  ultimately show False using nat_dvd_not_less by blast
qed

lemma mod_window_inj:
  fixes f i j c :: nat
  assumes "i < c" "j < c" "(f + i) mod c = (f + j) mod c"
  shows "i = j"
  using assms mod_window_neq [of i j c f] mod_window_neq [of j i c f]
  by (metis linorder_neqE_nat)

lemma rotate_update:
  assumes "i < length d"
  shows "rotate f (d[(f + i) mod length d := x]) = (rotate f d)[i := x]"
proof (rule nth_equalityI)
  show "length (rotate f (d[(f + i) mod length d := x])) = length ((rotate f d)[i := x])" by simp
next
  fix k assume "k < length (rotate f (d[(f + i) mod length d := x]))"
  then have k: "k < length d" by simp
  have m: "(f + k) mod length d < length d" using k by (intro mod_less_divisor) auto
  show "rotate f (d[(f + i) mod length d := x]) ! k = (rotate f d)[i := x] ! k"
  proof (cases "i = k")
    case True
    then show ?thesis using k m by (simp add: nth_rotate)
  next
    case False
    then have "(f + i) mod length d \<noteq> (f + k) mod length d"
      using mod_window_inj [of i "length d" k f] k assms by blast
    then show ?thesis using k m False by (simp add: nth_rotate)
  qed
qed

lemma cells_rotate:
  assumes "data q = Some d" "int (length d) = capacity q" "0 \<le> count q" "count q \<le> capacity q"
  shows "cells q = take (nat (count q)) (rotate (nat (front_index q)) d)"
proof (rule nth_equalityI)
  show "length (cells q) = length (take (nat (count q)) (rotate (nat (front_index q)) d))"
    using assms by (simp add: cells_def)
next
  fix k assume "k < length (cells q)"
  then have "k < nat (count q)" using assms by (simp add: cells_def)
  moreover have "nat (capacity q) = length d" using assms by simp
  ultimately show "cells q ! k = take (nat (count q)) (rotate (nat (front_index q)) d) ! k"
    using assms by (simp add: cells_def nth_rotate)
qed

lemma take_rotate_nowrap:
  assumes "f + n \<le> length d"
  shows "take n (rotate f d) = take n (drop f d)"
proof (cases "f = length d")
  case True
  then show ?thesis using assms by simp
next
  case False
  then have "f < length d" using assms by simp
  then show ?thesis using assms by (simp add: rotate_drop_take)
qed

lemma take_rotate_wrap:
  assumes "f < length d" "length d < f + n" "n \<le> length d"
  shows "take n (rotate f d) = drop f d @ take (n - (length d - f)) d"
  using assms by (auto simp: rotate_drop_take min_def)

lemma Grow_spec:
  assumes ok: "queue_ok q" and r: "s32_range (capacity q * 2)"
  shows "Grow q = Inr (q\<lparr>data := Some (cells q @ replicate (nat (capacity q * 2 - count q)) None),
                          capacity := capacity q * 2, front_index := 0\<rparr>)"
proof -
  from ok obtain d where d: "data q = Some d" "int (length d) = capacity q"
    by (auto simp: queue_ok_def split: option.splits)
  define c f n where "c = length d" and "f = nat (front_index q)" and "n = nat (count q)"
  have eqs: "capacity q = int c" "front_index q = int f" "count q = int n"
    and bnd: "0 < c" "n \<le> c" "f < c"
    using ok d by (auto simp: queue_ok_def c_def f_def n_def)
  have cr: "cells q = take n (rotate f d)"
    using cells_rotate [OF d] ok by (simp add: queue_ok_def n_def f_def)
  have r2: "s32_range (int f + int n)"
    using r bnd ok by (auto simp: s32_range_def eqs)
  have ar: "nat (int c * 2) = 2 * c" "nat (int c - int f) = c - f"
    "nat (int c * 2 - int n) = 2 * c - n" "nat (int n - (int c - int f)) = n + f - c"
    using bnd by auto
  show ?thesis
  proof (cases "c < f + n")
    case True
    have "take n (rotate f d) = drop f d @ take (n - (c - f)) d"
      using take_rotate_wrap [of f d n] bnd True by (simp add: c_def)
    then show ?thesis
      using True bnd r r2 d cr
      by (simp add: Grow_def GrowRate_def CopyMemory_def eqs Let_def c_def [symmetric] ar)
  next
    case False
    have "take n (rotate f d) = take n (drop f d)"
      using take_rotate_nowrap [of f n d] bnd False by (simp add: c_def)
    then show ?thesis
      using False bnd r r2 d cr
      by (simp add: Grow_def GrowRate_def CopyMemory_def eqs Let_def c_def [symmetric] ar)
  qed
qed

lemma queue_ok_dataE:
  assumes "queue_ok q"
  obtains d where "data q = Some d" "int (length d) = capacity q"
  using assms by (auto simp: queue_ok_def split: option.splits)

lemma cells_lock [simp]: "cells (q\<lparr>lock := l\<rparr>) = cells q"
  by (simp add: cells_def split: option.splits)

lemma queue_ok_lock [simp]: "queue_ok (q\<lparr>lock := l\<rparr>) = queue_ok q"
  by (simp add: queue_ok_def split: option.splits)

lemma push_tail:
  fixes x :: FileChange
  assumes ok: "queue_ok q" and room: "count q < capacity q" and d: "data q = Some d"
  defines "b \<equiv> nat ((front_index q + count q) mod capacity q)"
  defines "q' \<equiv> q\<lparr>data := Some (d[b := Some x]), count := count q + 1\<rparr>"
  shows "queue_ok q' \<and> cells q' = cells q @ [Some x] \<and> b < length d"
proof -
  have len: "int (length d) = capacity q"
    using ok d by (simp add: queue_ok_def)
  define c f n where "c = length d" and "f = nat (front_index q)" and "n = nat (count q)"
  have eqs: "capacity q = int c" "front_index q = int f" "count q = int n"
    and bnd: "0 < c" "n < c" "f < c"
    using ok len room by (auto simp: queue_ok_def c_def f_def n_def)
  have b: "b = (f + n) mod c"
    unfolding b_def eqs by (simp add: nat_mod_distrib nat_add_distrib)
  have cr: "cells q = take n (rotate f d)"
    using cells_rotate [OF d len] ok by (simp add: queue_ok_def n_def f_def)
  have "cells q' = take (Suc n) (rotate f (d[b := Some x]))"
    using cells_rotate [of q' "d[b := Some x]"] bnd
    by (simp add: q'_def eqs c_def nat_add_distrib)
  also have "rotate f (d[b := Some x]) = (rotate f d)[n := Some x]"
    using rotate_update [of n d f] bnd by (simp add: b c_def)
  also have "take (Suc n) ((rotate f d)[n := Some x]) = take n (rotate f d) @ [Some x]"
    using bnd by (simp add: take_Suc_conv_app_nth c_def)
  finally have cq: "cells q' = cells q @ [Some x]" by (simp add: cr)
  have "queue_ok q'"
    using ok cq room len by (auto simp: queue_ok_def q'_def)
  moreover have "b < length d" using bnd by (simp add: b c_def)
  ultimately show ?thesis using cq by simp
qed

lemma Grow_overflow:
  assumes "queue_ok q" "\<not> s32_range (capacity q * 2)"
  shows "Grow q = Inl SignedOverflow"
  using assms by (auto simp: Grow_def GrowRate_def queue_ok_def split: option.splits)

lemma Push_nogrow:
  assumes inv: "queue_inv q" and room: "count q \<noteq> capacity q"
    and r: "s32_range (front_index q + count q)"
  shows "\<exists>q'. Push q x = Some (Inr q') \<and> queue_inv q' \<and> cells q' = cells q @ [Some x] \<and>
           count q' = count q + 1 \<and> capacity q' = capacity q \<and> front_index q' = front_index q"
proof -
  from inv have ok: "queue_ok q" and l: "lock q = 0" by (simp_all add: queue_inv_def)
  from ok obtain d where d: "data q = Some d" "int (length d) = capacity q"
    by (rule queue_ok_dataE)
  have lt: "count q < capacity q" using ok room by (simp add: queue_ok_def)
  note t = push_tail [OF ok lt d(1), of x]
  have nn: "0 \<le> front_index q + count q" "0 < capacity q" 
    using ok by (simp_all add: queue_ok_def)
  have sm: "(front_index q + count q) smod capacity q = (front_index q + count q) mod capacity q"
    using nn by (rule smod_nonneg)
  have c1: "s32_range (count q + 1)"
    using ok lt by (simp add: queue_ok_def s32_range_def)
  have b2: "\<not> (front_index q + count q) mod capacity q < 0"
    "\<not> capacity q \<le> (front_index q + count q) mod capacity q"
    using nn by (simp_all add: not_less not_le)
  show ?thesis
    using t l d room r nn sm c1 b2
    by (simp add: Push_def Lock_free Unlock_def queue_inv_def Let_def)
qed

lemma Push_grow:
  assumes inv: "queue_inv q" and full: "count q = capacity q"
    and r: "s32_range (capacity q * 2)"
  shows "\<exists>q'. Push q x = Some (Inr q') \<and> queue_inv q' \<and> cells q' = cells q @ [Some x] \<and>
           count q' = count q + 1 \<and> capacity q' = capacity q * 2"
proof -
  from inv have ok: "queue_ok q" and l: "lock q = 0" by (simp_all add: queue_inv_def)
  define q1 where "q1 = q\<lparr>lock := 1\<rparr>"
  have ok1: "queue_ok q1" using ok by (simp add: q1_def)
  define nd where "nd = cells q @ replicate (nat (capacity q * 2 - count q)) (None :: FileChange option)"
  define q2 where "q2 = q1\<lparr>data := Some nd, capacity := capacity q * 2, front_index := 0\<rparr>"
  have g: "Grow q1 = Inr q2"
    using Grow_spec [OF ok1] r by (simp add: q1_def q2_def nd_def)
  have lc: "length (cells q) = nat (count q)"
    using ok by (auto simp: cells_def queue_ok_def split: option.splits)
  have cpos: "0 < capacity q" "0 \<le> count q" using ok by (simp_all add: queue_ok_def)
  have lnd: "int (length nd) = capacity q * 2"
    using lc cpos full by (simp add: nd_def)
  have c2: "cells q2 = cells q"
  proof -
    have "cells q2 = take (nat (count q)) (rotate 0 nd)"
      using cells_rotate [of q2 nd] lnd cpos full by (simp add: q2_def q1_def)
    then show ?thesis using lc by (simp add: nd_def)
  qed
  have ok2: "queue_ok q2"
    using ok c2 lnd r cpos full unfolding queue_ok_def
    by (simp add: q2_def q1_def)
  have lt2: "count q2 < capacity q2" using cpos full by (simp add: q2_def q1_def)
  have d2: "data q2 = Some nd" by (simp add: q2_def)
  note t = push_tail [OF ok2 lt2 d2, of x]
  have nn: "0 \<le> front_index q2 + count q2" "0 < capacity q2"
    using cpos by (simp_all add: q2_def q1_def)
  have sm: "(front_index q2 + count q2) smod capacity q2 = (front_index q2 + count q2) mod capacity q2"
    using nn by (rule smod_nonneg)
  have r2: "s32_range (front_index q2 + count q2)" "s32_range (count q2 + 1)"
    using r cpos full by (simp_all add: q2_def q1_def s32_range_def)
  have b2: "\<not> (front_index q2 + count q2) mod capacity q2 < 0"
    "\<not> int (length nd) \<le> (front_index q2 + count q2) mod capacity q2"
    using nn lnd by (simp_all add: q2_def not_less not_le)
  have lk: "Lock q = Some q1" using l by (simp add: Lock_free q1_def)
  have full1: "count q1 = capacity q1" using full by (simp add: q1_def)
  define q3 where
    "q3 = q2\<lparr>data := Some (nd[nat ((front_index q2 + count q2) mod capacity q2) := Some x]),
             count := count q2 + 1\<rparr>"
  have t3: "queue_ok q3" "cells q3 = cells q @ [Some x]"
    using t c2 by (simp_all add: q3_def)
  have f3: "count q3 = count q + 1" "capacity q3 = capacity q * 2"
    by (simp_all add: q3_def q2_def q1_def)
  have "Push q x = Some (Inr (Unlock q3))"
    using lk full1 g d2 nn sm r2 b2
    by (simp add: Push_def Let_def q3_def)
  moreover have "queue_inv (Unlock q3)" "cells (Unlock q3) = cells q @ [Some x]"
    "count (Unlock q3) = count q + 1" "capacity (Unlock q3) = capacity q * 2"
    using t3 f3 by (simp_all add: Unlock_def queue_inv_def)
  ultimately show ?thesis by blast
qed

lemma Push_ok:
  assumes "queue_inv q" "push_fits q"
  shows "\<exists>q'. Push q x = Some (Inr q') \<and> queue_inv q' \<and> cells q' = cells q @ [Some x] \<and>
           count q' = count q + 1 \<and>
           capacity q' = (if count q = capacity q then capacity q * 2 else capacity q)"
proof (cases "count q = capacity q")
  case True
  then show ?thesis using Push_grow [OF assms(1) True, of x] assms(2) by (simp add: push_fits_def)
next
  case False
  then show ?thesis using Push_nogrow [OF assms(1) False, of x] assms(2)
    by (auto simp: push_fits_def)
qed

lemma Push_Inr_fits:
  assumes inv: "queue_inv q" and p: "Push q x = Some (Inr q')"
  shows "push_fits q"
proof (rule ccontr)
  assume nf: "\<not> push_fits q"
  from inv have ok: "queue_ok q" and l: "lock q = 0" by (simp_all add: queue_inv_def)
  show False
  proof (cases "count q = capacity q")
    case True
    then have "Grow (q\<lparr>lock := 1\<rparr>) = Inl SignedOverflow"
      using Grow_overflow [of "q\<lparr>lock := 1\<rparr>"] ok nf by (simp add: push_fits_def)
    then show False using p l True by (simp add: Push_def Lock_free)
  next
    case False
    then show False using p l nf by (simp add: Push_def Lock_free push_fits_def)
  qed
qed

lemma take_rotate1:
  assumes "0 < n" "n \<le> length ys"
  shows "take (n - 1) (rotate1 ys) = tl (take n ys)"
proof (cases ys)
  case Nil
  then show ?thesis using assms by simp
next
  case (Cons y ys')
  then show ?thesis using assms by (cases n) simp_all
qed

lemma pop_tail:
  assumes ok: "queue_ok q" and pos: "0 < count q" and d: "data q = Some d"
  defines "q' \<equiv> q\<lparr>count := count q - 1, front_index := (front_index q + 1) mod capacity q\<rparr>"
  shows "queue_ok q' \<and> cells q' = tl (cells q) \<and> nat (front_index q) < length d \<and>
         d ! nat (front_index q) = hd (cells q) \<and> hd (cells q) \<noteq> None"
proof -
  have len: "int (length d) = capacity q"
    using ok d by (simp add: queue_ok_def)
  define c f n where "c = length d" and "f = nat (front_index q)" and "n = nat (count q)"
  have eqs: "capacity q = int c" "front_index q = int f" "count q = int n"
    and bnd: "0 < c" "n \<le> c" "f < c" "0 < n"
    using ok len pos by (auto simp: queue_ok_def c_def f_def n_def)
  have cr: "cells q = take n (rotate f d)"
    using cells_rotate [OF d len] ok by (simp add: queue_ok_def n_def f_def)
  have f': "nat ((int f + 1) mod int c) = Suc f mod c"
    by (simp add: nat_mod_distrib nat_add_distrib)
  have n1: "nat (int n - 1) = n - 1" by simp
  have q'f: "data q' = Some d" "capacity q' = int c" "count q' = int n - 1"
    "front_index q' = (int f + 1) mod int c"
    using d by (simp_all add: q'_def eqs)
  have "cells q' = take (nat (count q')) (rotate (nat (front_index q')) d)"
    using bnd by (intro cells_rotate) (simp_all add: q'f c_def)
  then have "cells q' = take (n - 1) (rotate (Suc f mod c) d)"
    by (simp only: q'f f' n1)
  also have "rotate (Suc f mod c) d = rotate1 (rotate f d)"
    using rotate_conv_mod [of "Suc f" d] by (simp add: c_def)
  also have "take (n - 1) (rotate1 (rotate f d)) = tl (take n (rotate f d))"
    using take_rotate1 [of n "rotate f d"] bnd by (simp add: c_def)
  finally have cq: "cells q' = tl (cells q)" by (simp add: cr)
  have ne: "cells q \<noteq> []" using cr bnd by (auto simp: c_def)
  have hdc: "hd (cells q) = d ! f"
    using bnd d by (simp add: cells_def eqs hd_map hd_upt)
  have init: "list_all (\<lambda>c. c \<noteq> None) (cells q)" using ok by (simp add: queue_ok_def)
  have "list_all (\<lambda>c. c \<noteq> None) (tl (cells q))"
    using init ne by (cases "cells q") simp_all
  moreover have "0 \<le> (int f + 1) mod int c" "(int f + 1) mod int c < int c"
    using bnd by simp_all
  ultimately have "queue_ok q'"
    using ok cq len bnd d unfolding queue_ok_def by (simp add: q'_def eqs)
  moreover have "hd (cells q) \<noteq> None"
    using init ne by (cases "cells q") simp_all
  ultimately show ?thesis using cq hdc bnd by (simp add: f_def c_def)
qed




lemma Pop_withheld:
  assumes inv: "queue_inv q" and w: "pop_withheld q"
  shows "Pop q = Some (Inr (None, q))"
proof -
  from inv have ok: "queue_ok q" and l: "lock q = 0" by (simp_all add: queue_inv_def)
  from ok obtain d where d: "data q = Some d" "int (length d) = capacity q"
    by (rule queue_ok_dataE)
  have u: "q\<lparr>lock := 0\<rparr> = q" using l by simp
  show ?thesis
  proof (cases "count q = 0")
    case True
    then show ?thesis using l by (simp add: Pop_def Lock_free Unlock_def u)
  next
    case False
    then have c1: "count q = 1" and a: "action (hd (elements q)) = RenamedFrom"
      using w by (simp_all add: pop_withheld_def)
    have pos: "0 < count q" using c1 by simp
    note t = pop_tail [OF ok pos d(1)]
    obtain x where x: "hd (cells q) = Some x" using t by auto
    have ne: "cells q \<noteq> []"
      using c1 d by (simp add: cells_def)
    have hx: "hd (elements q) = x" using x ne by (simp add: elements_def hd_map)
    have rd: "read_data (q\<lparr>lock := 1\<rparr>) (front_index q) = Inr x"
      using t x d ok by (simp add: read_data_def queue_ok_def)
    show ?thesis using l c1 a rd hx by (simp add: Pop_def Lock_free Unlock_def u)
  qed
qed




lemma Pop_take:
  assumes inv: "queue_inv q" and w: "\<not> pop_withheld q"
  shows "\<exists>q'. Pop q = Some (Inr (Some (hd (elements q)), q')) \<and> queue_inv q' \<and>
           cells q' = tl (cells q) \<and> capacity q' = capacity q \<and> count q' = count q - 1"
proof -
  from inv have ok: "queue_ok q" and l: "lock q = 0" by (simp_all add: queue_inv_def)
  from ok obtain d where d: "data q = Some d" "int (length d) = capacity q"
    by (rule queue_ok_dataE)
  have pos: "0 < count q" using w ok by (simp add: pop_withheld_def queue_ok_def)
  note t = pop_tail [OF ok pos d(1)]
  obtain x where x: "hd (cells q) = Some x" using t by auto
  have ne: "cells q \<noteq> []"
    using pos d by (simp add: cells_def)
  have hx: "hd (elements q) = x" using x ne by (simp add: elements_def hd_map)
  have rd: "read_data (q\<lparr>lock := 1\<rparr>) (front_index q) = Inr x"
    using t x d ok by (simp add: read_data_def queue_ok_def)
  have nn: "0 \<le> front_index q + 1" "0 < capacity q" using ok by (simp_all add: queue_ok_def)
  have sm: "(front_index q + 1) smod capacity q = (front_index q + 1) mod capacity q"
    using nn by (rule smod_nonneg)
  have rg: "s32_range (count q - 1)" "s32_range (front_index q + 1)"
    using ok by (simp_all add: queue_ok_def s32_range_def)
  define q3 where "q3 = q\<lparr>count := count q - 1, front_index := (front_index q + 1) mod capacity q\<rparr>"
  have t3: "queue_ok q3" "cells q3 = tl (cells q)" using t by (simp_all add: q3_def)
  have na: "\<not> (count q = 1 \<and> action x = RenamedFrom)" "count q \<noteq> 0"
    using w hx by (auto simp: pop_withheld_def)
  have "Pop q = Some (Inr (Some x, q3))"
    using l rd nn sm rg na by (auto simp: Pop_def Lock_free Unlock_def q3_def)
  moreover have "queue_inv q3" using t3 l by (simp add: queue_inv_def q3_def)
  moreover have "capacity q3 = capacity q" "count q3 = count q - 1" by (simp_all add: q3_def)
  ultimately show ?thesis using t3 hx by blast
qed

lemma elements_Nil_iff: "queue_ok q \<Longrightarrow> (elements q = []) = (count q = 0)"
  by (auto simp: elements_def cells_def queue_ok_def split: option.splits)

lemma length_elements: "queue_ok q \<Longrightarrow> int (length (elements q)) = count q"
  by (auto simp: elements_def cells_def queue_ok_def split: option.splits)

lemma run_queue_sound:
  assumes "queue_inv q" "run_queue q ops = Some (Inr (out, q'))"
  shows "queue_inv q' \<and> capacity q \<le> capacity q' \<and> elements q @ pushed ops = out @ elements q'"
  using assms
proof (induction ops arbitrary: q out)
  case Nil
  then show ?case by simp
next
  case (Cons a ops)
  show ?case
  proof (cases a)
    case (Push_op x)
    from Cons.prems(2) Push_op obtain q1 where
      p: "Push q x = Some (Inr q1)" and r: "run_queue q1 ops = Some (Inr (out, q'))"
      by (auto split: option.splits sum.splits)
    have "push_fits q" using Push_Inr_fits [OF Cons.prems(1) p] .
    from Push_ok [OF Cons.prems(1) this, of x] p
    have q1: "queue_inv q1" "cells q1 = cells q @ [Some x]" "capacity q \<le> capacity q1"
      using Cons.prems(1) by (auto simp: queue_inv_def queue_ok_def split: if_splits)
    have e1: "elements q1 = elements q @ [x]" using q1(2) by (simp add: elements_def)
    from Cons.IH [OF q1(1) r] q1(3) e1 Push_op show ?thesis by simp
  next
    case Pop_op
    from Cons.prems(2) Pop_op obtain res q1 out1 where
      p: "Pop q = Some (Inr (res, q1))" and r: "run_queue q1 ops = Some (Inr (out1, q'))"
      and o: "out = (case res of None \<Rightarrow> [] | Some x \<Rightarrow> [x]) @ out1"
      by (auto split: option.splits sum.splits prod.splits)
    show ?thesis
    proof (cases "pop_withheld q")
      case True
      from Pop_withheld [OF Cons.prems(1) True] p have "res = None" "q1 = q" by simp_all
      with Cons.IH [OF Cons.prems(1), of out1] r o Pop_op show ?thesis by simp
    next
      case False
      from Pop_take [OF Cons.prems(1) False] p
      have q1: "res = Some (hd (elements q))" "queue_inv q1" "cells q1 = tl (cells q)"
        "capacity q1 = capacity q" by auto
      have ok: "queue_ok q" using Cons.prems(1) by (simp add: queue_inv_def)
      have ne: "elements q \<noteq> []"
        using False elements_Nil_iff [OF ok] by (simp add: pop_withheld_def)
      have e1: "elements q = hd (elements q) # elements q1"
        using ne q1(3) by (simp add: elements_def map_tl)
      from Cons.IH [OF q1(2) r] have "queue_inv q'" "capacity q1 \<le> capacity q'"
        "elements q1 @ pushed ops = out1 @ elements q'" by simp_all
      then show ?thesis using q1 o e1 Pop_op by (metis append_Cons append_Nil option.simps(5) pushed.simps(3))
    qed
  qed
qed

lemma run_queue_total:
  assumes "queue_inv q" "capacity q \<le> 2 ^ 30" "count q + int (length (pushed ops)) \<le> 2 ^ 29"
  shows "\<exists>out q'. run_queue q ops = Some (Inr (out, q'))"
  using assms
proof (induction ops arbitrary: q)
  case Nil
  then show ?case by simp
next
  case (Cons a ops)
  have ok: "queue_ok q" using Cons.prems(1) by (simp add: queue_inv_def)
  show ?case
  proof (cases a)
    case (Push_op x)
    have fits: "push_fits q"
      using ok Cons.prems(2,3) Push_op
      by (auto simp: push_fits_def queue_ok_def s32_range_def)
    from Push_ok [OF Cons.prems(1) fits, of x] obtain q1 where
      q1: "Push q x = Some (Inr q1)" "queue_inv q1" "count q1 = count q + 1"
        "capacity q1 = (if count q = capacity q then capacity q * 2 else capacity q)"
      by blast
    have "capacity q1 \<le> 2 ^ 30" using q1(4) Cons.prems(2,3) Push_op by (auto split: if_splits)
    moreover have "count q1 + int (length (pushed ops)) \<le> 2 ^ 29"
      using q1(3) Cons.prems(3) Push_op by simp
    ultimately obtain out q' where "run_queue q1 ops = Some (Inr (out, q'))"
      using Cons.IH [OF q1(2)] by blast
    then show ?thesis using q1(1) Push_op by simp
  next
    case Pop_op
    show ?thesis
    proof (cases "pop_withheld q")
      case True
      from Cons.IH [OF Cons.prems(1,2)] Cons.prems(3) Pop_op
      obtain out q' where "run_queue q ops = Some (Inr (out, q'))" by auto
      then show ?thesis using Pop_withheld [OF Cons.prems(1) True] Pop_op by simp
    next
      case False
      from Pop_take [OF Cons.prems(1) False] obtain q1 where
        q1: "Pop q = Some (Inr (Some (hd (elements q)), q1))" "queue_inv q1"
          "capacity q1 = capacity q" "count q1 = count q - 1" by blast
      have "count q1 + int (length (pushed ops)) \<le> 2 ^ 29"
        using q1(4) Cons.prems(3) Pop_op by simp
      then obtain out q' where "run_queue q1 ops = Some (Inr (out, q'))"
        using Cons.IH [OF q1(2)] q1(3) Cons.prems(2) by auto
      then show ?thesis using q1(1) Pop_op by simp
    qed
  qed
qed

lemma Grow_locked:
  assumes "queue_inv q" "s32_range (capacity q * GrowRate)"
  shows "Grow (q\<lparr>lock := l\<rparr>) =
           Inr (q\<lparr>lock := l,
                  data := Some (cells q @ replicate (nat (capacity q * GrowRate - count q)) None),
                  capacity := capacity q * GrowRate, front_index := 0\<rparr>)"
proof -
  have "queue_ok (q\<lparr>lock := l\<rparr>)" using assms(1) by (simp add: queue_inv_def)
  from Grow_spec [OF this] assms(2) show ?thesis by (simp add: GrowRate_def)
qed

lemma Push_step:
  assumes "queue_inv q" "Push q x = Some (Inr q1)"
  shows "elements q1 = elements q @ [x] \<and> count q1 = count q + 1 \<and>
         capacity q1 = (if count q = capacity q then capacity q * GrowRate else capacity q)"
proof -
  have "push_fits q" using Push_Inr_fits [OF assms] .
  from Push_ok [OF assms(1) this, of x] assms(2)
  show ?thesis by (auto simp: elements_def GrowRate_def)
qed

text \<open>
  Claim C1. From a state that satisfies the queue invariant, every run of \<^verbatim>\<open>Push\<close> and
  \<^verbatim>\<open>Pop\<close> calls that returns ends in a state that satisfies the invariant again, with
  \<open>0 \<le> count \<le> capacity\<close> and a capacity that has not shrunk, and the records handed
  out by the \<^verbatim>\<open>Pop\<close>s, followed by the records still queued, are the records queued at
  the start followed by the pushed ones, in push order. A \<^verbatim>\<open>Push\<close> appends to the logical
  content and doubles the capacity exactly when the queue is full. \<^verbatim>\<open>Grow\<close> (whatever the
  lock holds) copies exactly the \<open>count\<close> logical cells, front first also when they wrap
  past the end of the array, to the start of a new array of twice the capacity and sets
  the front index to 0. A run returns whenever the capacity is at most \<open>2 ^ 30\<close> and the
  number of records never exceeds \<open>2 ^ 29\<close>.
\<close>

theorem queue_fifo_and_growth:
  assumes "queue_inv q"
  shows "(run_queue q ops = Some (Inr (out, q')) \<longrightarrow>
            queue_inv q' \<and> 0 \<le> count q' \<and> count q' \<le> capacity q' \<and>
            capacity q \<le> capacity q' \<and> elements q @ pushed ops = out @ elements q') \<and>
         (Push q x = Some (Inr q1) \<longrightarrow>
            elements q1 = elements q @ [x] \<and> count q1 = count q + 1 \<and>
            capacity q1 = (if count q = capacity q then capacity q * GrowRate else capacity q)) \<and>
         (s32_range (capacity q * GrowRate) \<longrightarrow>
            Grow (q\<lparr>lock := l\<rparr>) =
              Inr (q\<lparr>lock := l,
                     data := Some (cells q @
                                   replicate (nat (capacity q * GrowRate - count q)) None),
                     capacity := capacity q * GrowRate, front_index := 0\<rparr>)) \<and>
         (capacity q \<le> 2 ^ 30 \<and> count q + int (length (pushed ops)) \<le> 2 ^ 29 \<longrightarrow>
            (\<exists>out' q''. run_queue q ops = Some (Inr (out', q''))))"
proof (intro conjI impI)
  assume r: "run_queue q ops = Some (Inr (out, q'))"
  from run_queue_sound [OF assms r]
  show "queue_inv q'" "capacity q \<le> capacity q'" "elements q @ pushed ops = out @ elements q'"
    by simp_all
  then show "0 \<le> count q'" "count q' \<le> capacity q'"
    by (simp_all add: queue_inv_def queue_ok_def)
next
  assume "Push q x = Some (Inr q1)"
  from Push_step [OF assms this]
  show "elements q1 = elements q @ [x]" "count q1 = count q + 1"
    "capacity q1 = (if count q = capacity q then capacity q * GrowRate else capacity q)"
    by simp_all
next
  assume "s32_range (capacity q * GrowRate)"
  from Grow_locked [OF assms this]
  show "Grow (q\<lparr>lock := l\<rparr>) =
              Inr (q\<lparr>lock := l,
                     data := Some (cells q @
                                   replicate (nat (capacity q * GrowRate - count q)) None),
                     capacity := capacity q * GrowRate, front_index := 0\<rparr>)" .
next
  assume "capacity q \<le> 2 ^ 30 \<and> count q + int (length (pushed ops)) \<le> 2 ^ 29"
  then show "\<exists>out' q''. run_queue q ops = Some (Inr (out', q''))"
    using run_queue_total [OF assms, of ops] by simp
qed

lemma small_queue_inv: "queue_inv small_queue"
  by (simp add: small_queue_def queue_inv_def queue_ok_def cells_def s32_range_def)

lemma demo_run:
  "run_queue small_queue demo_ops =
     Some (Inr ([rec_of Added 1, rec_of Modified 2, rec_of RenamedFrom 3, rec_of RenamedTo 4],
                demo_final))"
  by code_simp

lemma demo_push:
  "Push small_queue (rec_of Added 1) =
     Some (Inr (small_queue\<lparr>data := Some [Some (rec_of Added 1), None], count := 1\<rparr>))"
  by code_simp

lemma demo_bounds:
  "s32_range (capacity small_queue * GrowRate)"
  "capacity small_queue \<le> 2 ^ 30 \<and> count small_queue + int (length (pushed demo_ops)) \<le> 2 ^ 29"
  by (simp_all add: small_queue_def demo_ops_def GrowRate_def s32_range_def)

theorem queue_fifo_and_growth_witness:
  "queue_inv small_queue \<and>
   run_queue small_queue demo_ops =
     Some (Inr ([rec_of Added 1, rec_of Modified 2, rec_of RenamedFrom 3, rec_of RenamedTo 4],
                demo_final)) \<and>
   queue_inv demo_final \<and> capacity small_queue \<le> capacity demo_final \<and>
   elements small_queue @ pushed demo_ops =
     [rec_of Added 1, rec_of Modified 2, rec_of RenamedFrom 3, rec_of RenamedTo 4]
       @ elements demo_final \<and>
   Push small_queue (rec_of Added 1) =
     Some (Inr (small_queue\<lparr>data := Some [Some (rec_of Added 1), None], count := 1\<rparr>)) \<and>
   elements (small_queue\<lparr>data := Some [Some (rec_of Added 1), None], count := 1\<rparr>) =
     elements small_queue @ [rec_of Added 1] \<and>
   s32_range (capacity small_queue * GrowRate) \<and>
   capacity (small_queue\<lparr>lock := 1\<rparr>) * GrowRate = 4"
  using queue_fifo_and_growth [OF small_queue_inv,
      of demo_ops "[rec_of Added 1, rec_of Modified 2, rec_of RenamedFrom 3, rec_of RenamedTo 4]"
         demo_final "rec_of Added 1"
         "small_queue\<lparr>data := Some [Some (rec_of Added 1), None], count := 1\<rparr>" 1]
    small_queue_inv demo_run demo_push demo_bounds
  by (simp add: small_queue_def GrowRate_def)

lemma single_push_fits:
  assumes "queue_inv q" "count q = 1"
  shows "push_fits q"
  using assms by (auto simp: push_fits_def queue_inv_def queue_ok_def s32_range_def)

lemma Pop_after_rename_from:
  assumes inv: "queue_inv q" and one: "count q = 1"
  shows "\<exists>q1 q2. Push q x = Some (Inr q1) \<and>
           Pop q1 = Some (Inr (Some (hd (elements q)), q2)) \<and> elements q2 = [x]"
proof -
  have ok: "queue_ok q" using inv by (simp add: queue_inv_def)
  from Push_ok [OF inv single_push_fits [OF inv one], of x] obtain q1 where
    q1: "Push q x = Some (Inr q1)" "queue_inv q1" "cells q1 = cells q @ [Some x]"
      "count q1 = count q + 1" by blast
  have l1: "length (elements q) = 1" using length_elements [OF ok] one by simp
  then obtain e where e: "elements q = [e]" by (cases "elements q") auto
  have e1: "elements q1 = [e, x]" using q1(3) e by (simp add: elements_def)
  have "\<not> pop_withheld q1" using q1(4) one by (simp add: pop_withheld_def)
  from Pop_take [OF q1(2) this] obtain q2 where
    q2: "Pop q1 = Some (Inr (Some (hd (elements q1)), q2))" "cells q2 = tl (cells q1)" by blast
  have "elements q2 = [x]" using q2(2) e1 by (simp add: elements_def map_tl)
  then show ?thesis using q1(1) q2(1) e e1 by simp
qed

text \<open>
  Claim C2. On a queue that satisfies the invariant \<^verbatim>\<open>Pop\<close> returns; it returns false
  (and leaves the queue as it is) exactly when the queue is empty or holds a single record
  whose action is \<^verbatim>\<open>RenamedFrom\<close>; otherwise it returns true with the front record and
  removes it. When a lone \<^verbatim>\<open>RenamedFrom\<close> is withheld and a record is pushed behind it,
  the next \<^verbatim>\<open>Pop\<close> returns the \<^verbatim>\<open>RenamedFrom\<close> record and leaves the pushed one.
\<close>

theorem Pop_rename_pairing:
  assumes "queue_inv q"
  shows "(\<exists>r q'. Pop q = Some (Inr (r, q')) \<and>
            (r = None) = (count q = 0 \<or> (count q = 1 \<and> action (hd (elements q)) = RenamedFrom)) \<and>
            (r = None \<longrightarrow> q' = q) \<and>
            (r \<noteq> None \<longrightarrow> r = Some (hd (elements q)) \<and> elements q' = tl (elements q))) \<and>
         (count q = 1 \<and> action (hd (elements q)) = RenamedFrom \<longrightarrow>
            Pop q = Some (Inr (None, q)) \<and>
            (\<exists>q1 q2. Push q x = Some (Inr q1) \<and>
               Pop q1 = Some (Inr (Some (hd (elements q)), q2)) \<and> elements q2 = [x]))"
proof (intro conjI impI)
  show "\<exists>r q'. Pop q = Some (Inr (r, q')) \<and>
            (r = None) = (count q = 0 \<or> (count q = 1 \<and> action (hd (elements q)) = RenamedFrom)) \<and>
            (r = None \<longrightarrow> q' = q) \<and>
            (r \<noteq> None \<longrightarrow> r = Some (hd (elements q)) \<and> elements q' = tl (elements q))"
  proof (cases "pop_withheld q")
    case True
    from Pop_withheld [OF assms True] True show ?thesis by (simp add: pop_withheld_def)
  next
    case False
    from Pop_take [OF assms False] obtain q' where
      "Pop q = Some (Inr (Some (hd (elements q)), q'))" "cells q' = tl (cells q)" by blast
    then show ?thesis using False by (simp add: pop_withheld_def elements_def map_tl)
  qed
next
  assume a: "count q = 1 \<and> action (hd (elements q)) = RenamedFrom"
  then have "pop_withheld q" by (simp add: pop_withheld_def)
  then show "Pop q = Some (Inr (None, q))" by (rule Pop_withheld [OF assms])
  from a show "\<exists>q1 q2. Push q x = Some (Inr q1) \<and>
               Pop q1 = Some (Inr (Some (hd (elements q)), q2)) \<and> elements q2 = [x]"
    using Pop_after_rename_from [OF assms] by blast
qed

lemma lone_rename_inv: "queue_inv lone_rename"
  by (simp add: lone_rename_def queue_inv_def queue_ok_def cells_def s32_range_def)

lemma lone_rename_front:
  "count lone_rename = 1 \<and> action (hd (elements lone_rename)) = RenamedFrom"
  by (simp add: lone_rename_def elements_def cells_def rec_of_def)

lemma lone_rename_run:
  "run_queue lone_rename [Pop_op, Push_op (rec_of RenamedTo 8), Pop_op, Pop_op] =
     Some (Inr ([rec_of RenamedFrom 7, rec_of RenamedTo 8],
                lone_rename\<lparr>data := Some [Some (rec_of RenamedTo 8), Some (rec_of RenamedFrom 7)],
                              count := 0\<rparr>))"
  by code_simp

theorem Pop_rename_pairing_witness:
  "queue_inv lone_rename \<and> count lone_rename = 1 \<and>
   action (hd (elements lone_rename)) = RenamedFrom \<and>
   Pop lone_rename = Some (Inr (None, lone_rename)) \<and>
   (\<exists>q1 q2. Push lone_rename (rec_of RenamedTo 8) = Some (Inr q1) \<and>
      Pop q1 = Some (Inr (Some (rec_of RenamedFrom 7), q2)) \<and>
      elements q2 = [rec_of RenamedTo 8])"
proof -
  have h: "hd (elements lone_rename) = rec_of RenamedFrom 7"
    by (simp add: lone_rename_def elements_def cells_def)
  show ?thesis
    using Pop_rename_pairing [OF lone_rename_inv, of "rec_of RenamedTo 8"]
      lone_rename_inv lone_rename_front
    by (simp add: h)
qed

section \<open>Properties of the decoder\<close>

declare ProcessNotification_loop.simps [simp del] notify_entries.simps [simp del]

lemma combine_path_fits:
  "path_fits directory_path event \<Longrightarrow>
   combine_path directory_path (FileName event) =
     Inr (directory_path @ (if last directory_path = backslash then [] else [backslash])
            @ FileName event)"
  by (auto simp: path_fits_def combine_path_def Let_def)

lemma combine_path_Inr:
  assumes "combine_path directory_path (FileName event) = Inr combined_path"
  shows "path_fits directory_path event \<and>
         combined_path = directory_path @ (if last directory_path = backslash then [] else [backslash])
            @ FileName event"
  using assms by (auto simp: path_fits_def combine_path_def Let_def split: if_splits)

lemma Push_elements:
  assumes "queue_inv q" "Push q x = Some (Inr q1)"
  shows "queue_inv q1 \<and> elements q1 = elements q @ [x] \<and> capacity q \<le> capacity q1"
proof -
  have "push_fits q" using Push_Inr_fits [OF assms] .
  from Push_ok [OF assms(1) this, of x] assms
  show ?thesis by (auto simp: elements_def queue_inv_def queue_ok_def split: if_splits)
qed

lemma loop_sound:
  assumes "queue_inv q" "ProcessNotification_loop utf8 buffer directory_path offset q = Some (Inr q')"
  shows "\<exists>events. notify_entries buffer offset = Inr events \<and> events \<noteq> [] \<and>
           (\<forall>e \<in> set events. path_fits directory_path e) \<and> queue_inv q' \<and>
           capacity q \<le> capacity q' \<and>
           elements q' = elements q @ map (entry_change utf8 directory_path) events"
  using assms
proof (induction utf8 buffer directory_path offset q rule: ProcessNotification_loop.induct)
  case (1 utf8 buffer directory_path offset q)
  from "1.prems"(2) obtain event where ev: "map_of buffer offset = Some event"
    by (subst (asm) ProcessNotification_loop.simps) (auto split: option.splits)
  from "1.prems"(2) ev have rg: "s32_range (offset + uint (NextEntryOffset event))"
    by (subst (asm) ProcessNotification_loop.simps) (auto split: if_splits)
  from "1.prems"(2) ev rg obtain combined_path where
    cp: "combine_path directory_path (FileName event) = Inr combined_path"
    by (subst (asm) ProcessNotification_loop.simps) (auto split: sum.splits)
  from "1.prems"(2) ev rg cp obtain q1 where
    pu: "Push q (change_of utf8 combined_path event) = Some (Inr q1)"
    by (subst (asm) ProcessNotification_loop.simps) (auto split: option.splits sum.splits)
  note c = combine_path_Inr [OF cp]
  have ch: "change_of utf8 combined_path event = entry_change utf8 directory_path event"
    using c by (simp add: entry_change_def)
  note p = Push_elements [OF "1.prems"(1) pu]
  show ?case
  proof (cases "NextEntryOffset event = 0")
    case True
    then have "q' = q1"
      using "1.prems"(2) ev rg cp pu by (subst (asm) ProcessNotification_loop.simps) simp
    moreover have "notify_entries buffer offset = Inr [event]"
      using ev rg True by (subst notify_entries.simps) simp
    ultimately show ?thesis using p c ch by simp
  next
    case False
    then have r: "ProcessNotification_loop utf8 buffer directory_path
                    (offset + uint (NextEntryOffset event)) q1 = Some (Inr q')"
      using "1.prems"(2) ev rg cp pu by (subst (asm) ProcessNotification_loop.simps) simp
    have nrg: "\<not> \<not> s32_range (offset + uint (NextEntryOffset event))" using rg by simp
    from "1.IH" [OF ev nrg cp pu _ False] p r obtain events where
      es: "notify_entries buffer (offset + uint (NextEntryOffset event)) = Inr events"
        "\<forall>e \<in> set events. path_fits directory_path e" "queue_inv q'"
        "capacity q1 \<le> capacity q'"
        "elements q' = elements q1 @ map (entry_change utf8 directory_path) events"
      by blast
    have "notify_entries buffer offset = Inr (event # events)"
      using ev rg False es(1) by (subst notify_entries.simps) simp
    then show ?thesis using es p c ch by auto
  qed
qed


lemma Push_bounded:
  assumes "queue_inv q" "capacity q \<le> 2 ^ 30" "count q < 2 ^ 29"
  shows "\<exists>q1. Push q x = Some (Inr q1) \<and> queue_inv q1 \<and> count q1 = count q + 1 \<and>
           capacity q1 \<le> 2 ^ 30 \<and> elements q1 = elements q @ [x]"
proof -
  have ok: "queue_ok q" using assms(1) by (simp add: queue_inv_def)
  have fits: "push_fits q"
    using ok assms(2,3) by (auto simp: push_fits_def queue_ok_def s32_range_def)
  from Push_ok [OF assms(1) fits, of x] obtain q1 where
    q1: "Push q x = Some (Inr q1)" "queue_inv q1" "cells q1 = cells q @ [Some x]"
      "count q1 = count q + 1"
      "capacity q1 = (if count q = capacity q then capacity q * 2 else capacity q)"
    by blast
  have "capacity q1 \<le> 2 ^ 30" using q1(5) assms(2,3) by (auto split: if_splits)
  moreover have "elements q1 = elements q @ [x]" using q1(3) by (simp add: elements_def)
  ultimately show ?thesis using q1 by blast
qed

lemma loop_total:
  assumes "queue_inv q" "notify_entries buffer offset = Inr events"
    "\<forall>e \<in> set events. path_fits directory_path e"
    "capacity q \<le> 2 ^ 30" "count q + int (length events) \<le> 2 ^ 29"
  shows "\<exists>q'. ProcessNotification_loop utf8 buffer directory_path offset q = Some (Inr q')"
  using assms
proof (induction utf8 buffer directory_path offset q arbitrary: events
        rule: ProcessNotification_loop.induct)
  case (1 utf8 buffer directory_path offset q)
  from "1.prems"(2) obtain event where ev: "map_of buffer offset = Some event"
    by (subst (asm) notify_entries.simps) (auto split: option.splits)
  from "1.prems"(2) ev have rg: "s32_range (offset + uint (NextEntryOffset event))"
    by (subst (asm) notify_entries.simps) (auto split: if_splits)
  have nrg: "\<not> \<not> s32_range (offset + uint (NextEntryOffset event))" using rg by simp
  from "1.prems"(2) ev rg obtain rest where es: "events = event # rest"
    and rest: "NextEntryOffset event \<noteq> 0 \<longrightarrow>
                 notify_entries buffer (offset + uint (NextEntryOffset event)) = Inr rest"
    by (subst (asm) notify_entries.simps) (auto split: if_splits sum.splits)
  have pf: "path_fits directory_path event" using "1.prems"(3) es by simp
  define combined_path where
    "combined_path = directory_path @ (if last directory_path = backslash then [] else [backslash])
                       @ FileName event"
  have cp: "combine_path directory_path (FileName event) = Inr combined_path"
    using combine_path_fits [OF pf] by (simp add: combined_path_def)
  have "count q < 2 ^ 29" using "1.prems"(5) es by simp
  from Push_bounded [OF "1.prems"(1,4) this, of "change_of utf8 combined_path event"]
  obtain q1 where q1: "Push q (change_of utf8 combined_path event) = Some (Inr q1)"
    "queue_inv q1" "count q1 = count q + 1" "capacity q1 \<le> 2 ^ 30" by blast
  show ?case
  proof (cases "NextEntryOffset event = 0")
    case True
    then show ?thesis using ev rg cp q1(1) by (subst ProcessNotification_loop.simps) simp
  next
    case False
    have cnt: "count q1 + int (length rest) \<le> 2 ^ 29" using q1(3) "1.prems"(5) es by simp
    have r: "notify_entries buffer (offset + uint (NextEntryOffset event)) = Inr rest"
      using rest False by simp
    have pf': "\<forall>e \<in> set rest. path_fits directory_path e" using "1.prems"(3) es by simp
    from "1.IH" [OF ev nrg cp q1(1) refl False q1(2) r pf' q1(4) cnt]
    obtain q' where "ProcessNotification_loop utf8 buffer directory_path
                       (offset + uint (NextEntryOffset event)) q1 = Some (Inr q')"
      by auto
    then show ?thesis using ev rg cp q1(1) False by (subst ProcessNotification_loop.simps) simp
  qed
qed

lemma conversion_fits:
  assumes b: "\<And>ws. length (utf8 ws) \<le> 3 * length ws" and pf: "path_fits directory_path event"
  defines "combined_path \<equiv> directory_path @ (if last directory_path = backslash then [] else [backslash])
                       @ FileName event"
  shows "WideCharToMultiByte utf8 (combined_path @ [0]) (MAX_PATH * 3) =
           (utf8 (combined_path @ [0]), int (length (utf8 (combined_path @ [0]))))"
proof -
  have "int (length (combined_path @ [0])) \<le> MAX_PATH"
    using pf by (auto simp: path_fits_def combined_path_def split: if_splits)
  moreover have "length (utf8 (combined_path @ [0])) \<le> 3 * length (combined_path @ [0])"
    by (rule b)
  ultimately have "int (length (utf8 (combined_path @ [0]))) \<le> MAX_PATH * 3"
    by linarith
  then show ?thesis by (simp add: WideCharToMultiByte_def)
qed

lemma entry_change_path:
  assumes "\<And>ws. length (utf8 ws) \<le> 3 * length ws" "path_fits directory_path event"
  shows "path (entry_change utf8 directory_path event) =
           c_string (utf8 (directory_path @ (if last directory_path = backslash then [] else [backslash])
                             @ FileName event @ [0]))"
  using conversion_fits [of utf8 directory_path event, OF assms]
  by (simp add: entry_change_def change_of_def Let_def)

lemma PN_sound:
  assumes "queue_inv q" "ProcessNotification utf8 (Some buffer) directory_path q = Some (Inr q')"
  shows "\<exists>events. notify_entries buffer 0 = Inr events \<and> events \<noteq> [] \<and>
           (\<forall>e \<in> set events. path_fits directory_path e) \<and> queue_inv q' \<and>
           capacity q \<le> capacity q' \<and>
           elements q' = elements q @ map (entry_change utf8 directory_path) events"
  using loop_sound [OF assms(1), of utf8 buffer directory_path 0 q'] assms(2)
  by (simp add: ProcessNotification_def)

text \<open>
  Claim C6. Let the encoder produce at most three bytes per code unit. When the decoder
  returns on a buffer, the paths of the records it has queued are, entry by entry, the
  string of the encoded units of the directory path, a separator unless the directory path
  ends in one, and the file name of the entry. (The decoder returns only when each combined
  path fits the \<^verbatim>\<open>MAX_PATH\<close> units of \<^verbatim>\<open>combined_path\<close>.)
\<close>

theorem reported_path_composition:
  assumes "\<And>ws. length (utf8 ws) \<le> 3 * length ws" and "queue_inv q"
    and "ProcessNotification utf8 (Some buffer) directory_path q = Some (Inr q')"
  shows "\<exists>events. notify_entries buffer 0 = Inr events \<and>
           map path (elements q') =
             map path (elements q) @
             map (\<lambda>event. c_string (utf8 (directory_path
                                @ (if last directory_path = backslash then [] else [backslash])
                                @ FileName event @ [0]))) events"
proof -
  from PN_sound [OF assms(2,3)] obtain events where
    es: "notify_entries buffer 0 = Inr events" "\<forall>e \<in> set events. path_fits directory_path e"
      "elements q' = elements q @ map (entry_change utf8 directory_path) events"
    by blast
  have "map path (map (entry_change utf8 directory_path) events) =
          map (\<lambda>event. c_string (utf8 (directory_path
                                @ (if last directory_path = backslash then [] else [backslash])
                                @ FileName event @ [0]))) events"
    using es(2) entry_change_path [of utf8 directory_path, OF assms(1)] by simp
  then show ?thesis using es(1,3) by auto
qed

lemma ascii_utf8_bound: "length (ascii_utf8 ws) \<le> 3 * length ws"
  by (simp add: ascii_utf8_def)

lemma decoded_data_dir:
  "ProcessNotification ascii_utf8 (Some one_entry_buffer) data_dir small_queue =
     Some (Inr (decoded one_entry_buffer data_dir))"
  "ProcessNotification ascii_utf8 (Some one_entry_buffer) data_dir_sep small_queue =
     Some (Inr (decoded one_entry_buffer data_dir_sep))"
  by code_simp+

lemma decoded_paths:
  "map path (elements (decoded one_entry_buffer data_dir)) = [data_a_txt]"
  "map path (elements (decoded one_entry_buffer data_dir_sep)) = [data_a_txt]"
  by code_simp+

theorem reported_path_composition_witness:
  "queue_inv small_queue \<and>
   ProcessNotification ascii_utf8 (Some one_entry_buffer) data_dir small_queue =
     Some (Inr (decoded one_entry_buffer data_dir)) \<and>
   map path (elements (decoded one_entry_buffer data_dir)) = [data_a_txt] \<and>
   (\<exists>events. notify_entries one_entry_buffer 0 = Inr events \<and>
      [data_a_txt] =
        map (\<lambda>event. c_string (ascii_utf8 (data_dir
                          @ (if last data_dir = backslash then [] else [backslash])
                          @ FileName event @ [0]))) events) \<and>
   ProcessNotification ascii_utf8 (Some one_entry_buffer) data_dir_sep small_queue =
     Some (Inr (decoded one_entry_buffer data_dir_sep)) \<and>
   map path (elements (decoded one_entry_buffer data_dir_sep)) = [data_a_txt]"
proof -
  have e: "elements small_queue = []"
    by (simp add: small_queue_def elements_def cells_def)
  show ?thesis
    using reported_path_composition [of ascii_utf8 small_queue one_entry_buffer data_dir
        "decoded one_entry_buffer data_dir", OF ascii_utf8_bound small_queue_inv decoded_data_dir(1)]
      small_queue_inv decoded_data_dir decoded_paths
    by (simp add: e)
qed

lemma action_of_default:
  assumes "a \<notin> {FILE_ACTION_ADDED, FILE_ACTION_REMOVED, FILE_ACTION_MODIFIED,
                 FILE_ACTION_RENAMED_OLD_NAME, FILE_ACTION_RENAMED_NEW_NAME}"
  shows "action_of a = None_action"
  using assms by (simp add: action_of_def)

lemma action_of_table:
  "action_of FILE_ACTION_ADDED = Added" "action_of FILE_ACTION_REMOVED = Removed"
  "action_of FILE_ACTION_MODIFIED = Modified"
  "action_of FILE_ACTION_RENAMED_OLD_NAME = RenamedFrom"
  "action_of FILE_ACTION_RENAMED_NEW_NAME = RenamedTo"
  by (simp_all add: action_of_def FILE_ACTION_ADDED_def FILE_ACTION_REMOVED_def
        FILE_ACTION_MODIFIED_def FILE_ACTION_RENAMED_OLD_NAME_def
        FILE_ACTION_RENAMED_NEW_NAME_def)

lemma action_entry_change:
  "action (entry_change utf8 directory_path event) = action_of (Action event)"
  by (simp add: entry_change_def change_of_def Let_def)

lemma PN_total:
  assumes "queue_inv q" "notify_entries buffer 0 = Inr events"
    "\<forall>e \<in> set events. path_fits directory_path e"
    "capacity q \<le> 2 ^ 30" "count q + int (length events) \<le> 2 ^ 29"
  shows "\<exists>q'. ProcessNotification utf8 (Some buffer) directory_path q = Some (Inr q')"
  using loop_total [OF assms, of utf8] by (simp add: ProcessNotification_def)

text \<open>
  Claim C9. The five native action codes map to \<^verbatim>\<open>Added\<close>, \<^verbatim>\<open>Removed\<close>, \<^verbatim>\<open>Modified\<close>,
  \<^verbatim>\<open>RenamedFrom\<close> and \<^verbatim>\<open>RenamedTo\<close>, every other code maps to \<^verbatim>\<open>None\<close>, and the
  action of each record that the decoder queues is the image of the entry's code. Whether
  the decoder returns does not depend on the codes: it returns on every buffer whose chain
  of entries ends, whose combined paths fit and for which the queue has room.
\<close>

theorem action_mapping:
  assumes "queue_inv q"
  shows "action_of FILE_ACTION_ADDED = Added \<and> action_of FILE_ACTION_REMOVED = Removed \<and>
         action_of FILE_ACTION_MODIFIED = Modified \<and>
         action_of FILE_ACTION_RENAMED_OLD_NAME = RenamedFrom \<and>
         action_of FILE_ACTION_RENAMED_NEW_NAME = RenamedTo \<and>
         (a \<notin> {FILE_ACTION_ADDED, FILE_ACTION_REMOVED, FILE_ACTION_MODIFIED,
                FILE_ACTION_RENAMED_OLD_NAME, FILE_ACTION_RENAMED_NEW_NAME} \<longrightarrow>
            action_of a = None_action) \<and>
         (ProcessNotification utf8 (Some buffer) directory_path q = Some (Inr q') \<longrightarrow>
            (\<exists>events. notify_entries buffer 0 = Inr events \<and>
               map action (elements q') =
                 map action (elements q) @ map (\<lambda>event. action_of (Action event)) events)) \<and>
         (notify_entries buffer 0 = Inr events \<and>
          (\<forall>e \<in> set events. path_fits directory_path e) \<and>
          capacity q \<le> 2 ^ 30 \<and> count q + int (length events) \<le> 2 ^ 29 \<longrightarrow>
            (\<exists>q'. ProcessNotification utf8 (Some buffer) directory_path q = Some (Inr q')))"
proof (intro conjI impI)
  assume "a \<notin> {FILE_ACTION_ADDED, FILE_ACTION_REMOVED, FILE_ACTION_MODIFIED,
                FILE_ACTION_RENAMED_OLD_NAME, FILE_ACTION_RENAMED_NEW_NAME}"
  then show "action_of a = None_action" by (rule action_of_default)
next
  assume "ProcessNotification utf8 (Some buffer) directory_path q = Some (Inr q')"
  from PN_sound [OF assms this] obtain events where
    es: "notify_entries buffer 0 = Inr events"
      "elements q' = elements q @ map (entry_change utf8 directory_path) events"
    by blast
  have "map action (map (entry_change utf8 directory_path) events) =
          map (\<lambda>event. action_of (Action event)) events"
    by (simp add: action_entry_change)
  then show "\<exists>events. notify_entries buffer 0 = Inr events \<and>
               map action (elements q') =
                 map action (elements q) @ map (\<lambda>event. action_of (Action event)) events"
    using es by auto
next
  assume "notify_entries buffer 0 = Inr events \<and>
          (\<forall>e \<in> set events. path_fits directory_path e) \<and>
          capacity q \<le> 2 ^ 30 \<and> count q + int (length events) \<le> 2 ^ 29"
  then show "\<exists>q'. ProcessNotification utf8 (Some buffer) directory_path q = Some (Inr q')"
    using PN_total [OF assms, of buffer events directory_path utf8] by blast
qed (simp_all add: action_of_table)

lemma decoded_unknown:
  "ProcessNotification ascii_utf8 (Some unknown_action_buffer) data_dir small_queue =
     Some (Inr (decoded unknown_action_buffer data_dir))"
  "map action (elements (decoded unknown_action_buffer data_dir)) = [None_action]"
  "notify_entries unknown_action_buffer 0 = Inr [file_entry 0 77 ''a.txt'']"
  "path_fits data_dir (file_entry 0 77 ''a.txt'')"
  by code_simp+

lemma unknown_code:
  "(77 :: u32) \<notin> {FILE_ACTION_ADDED, FILE_ACTION_REMOVED, FILE_ACTION_MODIFIED,
                  FILE_ACTION_RENAMED_OLD_NAME, FILE_ACTION_RENAMED_NEW_NAME}"
  by (simp add: FILE_ACTION_ADDED_def FILE_ACTION_REMOVED_def
        FILE_ACTION_MODIFIED_def FILE_ACTION_RENAMED_OLD_NAME_def
        FILE_ACTION_RENAMED_NEW_NAME_def)

theorem action_mapping_witness:
  "queue_inv small_queue \<and>
   (77 :: u32) \<notin> {FILE_ACTION_ADDED, FILE_ACTION_REMOVED, FILE_ACTION_MODIFIED,
                  FILE_ACTION_RENAMED_OLD_NAME, FILE_ACTION_RENAMED_NEW_NAME} \<and>
   action_of 77 = None_action \<and>
   notify_entries unknown_action_buffer 0 = Inr [file_entry 0 77 ''a.txt''] \<and>
   path_fits data_dir (file_entry 0 77 ''a.txt'') \<and>
   ProcessNotification ascii_utf8 (Some unknown_action_buffer) data_dir small_queue =
     Some (Inr (decoded unknown_action_buffer data_dir)) \<and>
   map action (elements (decoded unknown_action_buffer data_dir)) = [None_action]"
  using action_mapping [OF small_queue_inv, of 77 ascii_utf8 unknown_action_buffer data_dir
      "decoded unknown_action_buffer data_dir" "[file_entry 0 77 ''a.txt'']"]
    small_queue_inv decoded_unknown unknown_code
  by simp

text \<open>
  Claim C10. When the decoder returns on a non-null buffer, the queue holds at least one
  more record than before, and the first record it has queued is the one for the entry at
  offset 0. It returns on every buffer whose chain of entries ends, whose combined paths
  fit and for which the queue has room.
\<close>

theorem nonnull_buffer_pushes_record:
  assumes "queue_inv q"
  shows "(ProcessNotification utf8 (Some buffer) directory_path q = Some (Inr q') \<longrightarrow>
            (\<exists>event rest. map_of buffer 0 = Some event \<and>
               elements q' = elements q @ entry_change utf8 directory_path event # rest) \<and>
            count q < count q') \<and>
         (notify_entries buffer 0 = Inr events \<and>
          (\<forall>e \<in> set events. path_fits directory_path e) \<and>
          capacity q \<le> 2 ^ 30 \<and> count q + int (length events) \<le> 2 ^ 29 \<longrightarrow>
            (\<exists>q'. ProcessNotification utf8 (Some buffer) directory_path q = Some (Inr q')))"
proof (intro conjI impI)
  assume r: "ProcessNotification utf8 (Some buffer) directory_path q = Some (Inr q')"
  from PN_sound [OF assms r] obtain events where
    es: "notify_entries buffer 0 = Inr events" "events \<noteq> []" "queue_inv q'"
      "elements q' = elements q @ map (entry_change utf8 directory_path) events"
    by blast
  obtain event rest where er: "events = event # rest" using es(2) by (cases events) auto
  have "map_of buffer 0 = Some event"
    using es(1) er by (subst (asm) notify_entries.simps) (auto split: option.splits if_splits sum.splits)
  then show "\<exists>event rest. map_of buffer 0 = Some event \<and>
               elements q' = elements q @ entry_change utf8 directory_path event # rest"
    using es(4) er by auto
  have "int (length (elements q')) = count q'" "int (length (elements q)) = count q"
    using es(3) assms by (simp_all add: length_elements queue_inv_def)
  then show "count q < count q'" using es(4) er by simp
next
  assume "notify_entries buffer 0 = Inr events \<and>
          (\<forall>e \<in> set events. path_fits directory_path e) \<and>
          capacity q \<le> 2 ^ 30 \<and> count q + int (length events) \<le> 2 ^ 29"
  then show "\<exists>q'. ProcessNotification utf8 (Some buffer) directory_path q = Some (Inr q')"
    using PN_total [OF assms, of buffer events directory_path utf8] by blast
qed

lemma decoded_rename:
  "ProcessNotification ascii_utf8 (Some rename_buffer) data_dir small_queue =
     Some (Inr (decoded rename_buffer data_dir))"
  "count small_queue < count (decoded rename_buffer data_dir)"
  "map action (elements (decoded rename_buffer data_dir)) = [RenamedFrom, RenamedTo]"
  "notify_entries rename_buffer 0 =
     Inr [file_entry 96 FILE_ACTION_RENAMED_OLD_NAME ''old.txt'',
          file_entry 0 FILE_ACTION_RENAMED_NEW_NAME ''new.txt'']"
  "path_fits data_dir (file_entry 96 FILE_ACTION_RENAMED_OLD_NAME ''old.txt'')"
  "path_fits data_dir (file_entry 0 FILE_ACTION_RENAMED_NEW_NAME ''new.txt'')"
  by code_simp+

theorem nonnull_buffer_pushes_record_witness:
  "queue_inv small_queue \<and>
   notify_entries rename_buffer 0 =
     Inr [file_entry 96 FILE_ACTION_RENAMED_OLD_NAME ''old.txt'',
          file_entry 0 FILE_ACTION_RENAMED_NEW_NAME ''new.txt''] \<and>
   path_fits data_dir (file_entry 96 FILE_ACTION_RENAMED_OLD_NAME ''old.txt'') \<and>
   path_fits data_dir (file_entry 0 FILE_ACTION_RENAMED_NEW_NAME ''new.txt'') \<and>
   ProcessNotification ascii_utf8 (Some rename_buffer) data_dir small_queue =
     Some (Inr (decoded rename_buffer data_dir)) \<and>
   count small_queue < count (decoded rename_buffer data_dir) \<and>
   map action (elements (decoded rename_buffer data_dir)) = [RenamedFrom, RenamedTo]"
  using nonnull_buffer_pushes_record [OF small_queue_inv, of ascii_utf8 rename_buffer data_dir
      "decoded rename_buffer data_dir"
      "[file_entry 96 FILE_ACTION_RENAMED_OLD_NAME ''old.txt'',
        file_entry 0 FILE_ACTION_RENAMED_NEW_NAME ''new.txt'']"]
    small_queue_inv decoded_rename
  by simp

section \<open>Properties of the watcher\<close>

lemma xor_one_cases: "(0::int) XOR 1 = 1" "(1::int) XOR 1 = 0"
  by simp_all


lemma initialised_eq:
  "thread_handle initialised = Some 100" "open_handles initialised = {100}"
  "requests initialised = []" "queue initialised = Create" "heap initialised = Map.empty"
  "blocks initialised = []" "next_handle initialised = 101" "pending_apcs initialised = []"
  "pending_reads initialised = []" "\<not> should_terminate initialised"
  "outstanding_request_count initialised = 0" "thread_running initialised"
  by (simp_all add: initialised_def Initialize_def zero_watcher_def)

lemma to_utf16_demo: "to_utf16 os_demo data_name = Some data_dir"
  by (simp add: os_demo_def data_name_def data_dir_def wide_def)

lemma AddDirectory_demo:
  "AddDirectory os_demo initialised (Some data_name) True 32768 = Inr (True, watching)"
  by (simp add: watching_def AddDirectory_def initialised_eq to_utf16_demo Let_def s32_range_def
        os_demo_def data_dir_def wide_def data_name_def malloc_def)

lemma malloc_free:
  "free (snd (malloc w)) (fst (malloc w)) = w\<lparr>heap := (heap w)(fst (malloc w) := None)\<rparr>"
  by (simp add: malloc_def free_def Let_def)

lemma malloc_free_unused:
  assumes "heap w (fst (malloc w)) = None"
  shows "free (snd (malloc w)) (fst (malloc w)) = w"
proof -
  have "(heap w)(fst (malloc w) := None) = heap w"
    using assms by (metis fun_upd_triv)
  then show ?thesis by (simp add: malloc_free)
qed

lemma AddDirectory_False_iff:
  "(AddDirectory os w directory' is_recursive' change_buffer_size = Inr (False, w')) =
     (\<exists>thread dir ws.
        thread_handle w = Some thread \<and> directory' = Some dir \<and> 0 < change_buffer_size \<and>
        s32_range (2 * change_buffer_size) \<and> to_utf16 os dir = Some ws \<and>
        s32_range (2 * (int (length ws) + 1)) \<and> \<not> can_open os ws \<and>
        w' = free (snd (malloc w)) (fst (malloc w)))"
  by (auto simp: AddDirectory_def Let_def split: option.splits if_splits)

text \<open>
  Claim C7. \<^verbatim>\<open>AddDirectory\<close> returns false exactly when its assertions hold, the sizes
  stay inside \<^verbatim>\<open>s32\<close> and the directory cannot be opened. The state it then returns is the
  state it was called in: the block is released, no request is registered, no handle is
  open, no job or read is pending, and a \<^verbatim>\<open>ShutDown\<close> that follows does what it would have
  done before the call.
\<close>

theorem AddDirectory_open_failure:
  "(AddDirectory os w directory' is_recursive' change_buffer_size = Inr (False, w')) =
     (\<exists>thread dir ws.
        thread_handle w = Some thread \<and> directory' = Some dir \<and> 0 < change_buffer_size \<and>
        s32_range (2 * change_buffer_size) \<and> to_utf16 os dir = Some ws \<and>
        s32_range (2 * (int (length ws) + 1)) \<and> \<not> can_open os ws \<and>
        w' = free (snd (malloc w)) (fst (malloc w)) \<and>
        blocks w' = blocks w \<and> requests w' = requests w \<and> open_handles w' = open_handles w \<and>
        pending_apcs w' = pending_apcs w \<and> pending_reads w' = pending_reads w \<and>
        queue w' = queue w \<and>
        (heap w (fst (malloc w)) = None \<longrightarrow> w' = w \<and> ShutDown w' = ShutDown w))"
  unfolding AddDirectory_False_iff
  using malloc_free_unused [of w]
  by (auto simp: malloc_free)

lemma AddDirectory_True:
  assumes "AddDirectory os w directory' is_recursive' change_buffer_size = Inr (True, w')"
  shows "requests w' = requests w @ [fst (malloc w)] \<and>
         (\<exists>thread. thread_handle w = Some thread \<and>
            pending_apcs w' = (if thread \<in> open_handles w \<and> thread_running w
                               then pending_apcs w @ [fst (malloc w)]
                               else pending_apcs w)) \<and>
         (\<exists>r. heap w' = (heap w)(fst (malloc w) \<mapsto> r) \<and> buffer_index r = 0 \<and>
              buffer_size r = change_buffer_size \<and> 0 < change_buffer_size \<and>
              directory r = next_handle w \<and> directory r \<in> open_handles w') \<and>
         pending_reads w' = pending_reads w \<and> outstanding_request_count w' = outstanding_request_count w \<and>
         queue w' = queue w"
  using assms
  by (auto simp: AddDirectory_def Let_def malloc_def split: option.splits if_splits)

lemma BeginRead_requests:
  "BeginRead w a = Inr w' \<Longrightarrow> requests w' = requests w \<and> queue w' = queue w"
  by (auto simp: BeginRead_def Let_def split: option.splits if_splits)

lemma NotificationCompletion_process_requests:
  "NotificationCompletion_process os w e b a = Some (Inr w') \<Longrightarrow> requests w' = requests w"
  by (auto simp: NotificationCompletion_process_def Let_def
      dest!: BeginRead_requests split: option.splits if_splits sum.splits)

lemma NotificationCompletion_requests:
  "NotificationCompletion os w e b a = Some (Inr w') \<Longrightarrow> requests w' = requests w"
  by (auto simp: NotificationCompletion_def
      dest!: NotificationCompletion_process_requests simp: free_def split: option.splits if_splits)

lemma worker_step_requests:
  "worker_step os w ev = Some (Inr w') \<Longrightarrow> requests w' = requests w"
proof (cases ev)
  case Run_job
  assume "worker_step os w ev = Some (Inr w')"
  then show ?thesis using Run_job
    by (auto simp: ThreadAddDirectoryProc_def dest!: BeginRead_requests
        split: list.splits option.splits)
next
  case (Read_completes a e b c)
  assume "worker_step os w ev = Some (Inr w')"
  then show ?thesis using Read_completes
    by (auto simp: read_completes_def dest!: NotificationCompletion_requests split: list.splits)
next
  case Loop_test
  assume "worker_step os w ev = Some (Inr w')"
  then show ?thesis using Loop_test by (auto simp: ThreadProc_test_def)
qed

lemma worker_run_requests:
  "worker_run os w evs = Some (Inr w') \<Longrightarrow> requests w' = requests w"
proof (induction evs arbitrary: w)
  case Nil
  then show ?case by simp
next
  case (Cons ev evs)
  from Cons.prems obtain w1 where s: "worker_step os w ev = Some (Inr w1)"
    and r: "worker_run os w1 evs = Some (Inr w')"
    by (auto split: option.splits sum.splits)
  from Cons.IH [OF r] worker_step_requests [OF s] show ?case by simp
qed

lemma ShutDown_loop_frame:
  assumes "ShutDown_loop w rs = Inr w'"
  shows "heap w' = heap w \<and> blocks w' = blocks w \<and> pending_apcs w' = pending_apcs w \<and>
         pending_reads w' = pending_reads w \<and> requests w' = requests w"
  using assms
proof (induction rs arbitrary: w)
  case Nil
  then show ?case by simp
next
  case (Cons r rs)
  then show ?case by (auto split: option.splits)
qed

lemma ShutDown_frame:
  assumes "ShutDown w = Some (Inr w')"
  shows "heap w' = heap w \<and> blocks w' = blocks w \<and> pending_apcs w' = pending_apcs w \<and>
         pending_reads w' = pending_reads w \<and> requests w' = requests w"
proof -
  from assms obtain w1 where l: "ShutDown_loop (w\<lparr>should_terminate := True\<rparr>) (requests w) = Inr w1"
    by (auto simp: ShutDown_def split: sum.splits)
  from assms l obtain q1 where
    "w' = (case thread_handle w1 of None \<Rightarrow> w1
           | Some thread \<Rightarrow> w1\<lparr>open_handles := open_handles w1 - {thread}\<rparr>)\<lparr>queue := q1\<rparr>"
    by (auto simp: ShutDown_def Let_def split: option.splits)
  then show ?thesis using ShutDown_loop_frame [OF l] by (auto split: option.splits)
qed

lemma AddDirectory_False_requests:
  assumes "AddDirectory os w directory' is_recursive' change_buffer_size = Inr (False, w')"
  shows "requests w' = requests w"
  using assms by (auto simp: AddDirectory_False_iff malloc_free)

lemma system_step_requests:
  assumes s: "system_step os w ev = Some (Inr w')"
  shows "requests w' = requests w \<or>
         (\<exists>d r n. ev = Caller (Call_AddDirectory d r n) \<and>
            requests w' = requests w @ [fst (malloc w)]) \<or>
         (ev = Caller Call_Initialize \<and> requests w' = [])"
proof (cases ev)
  case (Worker e)
  then show ?thesis using s worker_step_requests [of os w e w'] by simp
next
  case (Caller c)
  show ?thesis
  proof (cases c)
    case Call_Initialize
    then have "w' = Initialize w" using s Caller by simp
    then have "requests w' = []" by (simp add: Initialize_def)
    then show ?thesis using Caller Call_Initialize by simp
  next
    case (Call_AddDirectory d r n)
    then obtain result where a: "AddDirectory os w d r n = Inr (result, w')"
      using s Caller by (auto split: sum.splits)
    show ?thesis
    proof (cases result)
      case True
      then show ?thesis using a AddDirectory_True [of os w d r n w'] Caller Call_AddDirectory
        by simp
    next
      case False
      then show ?thesis using a AddDirectory_False_requests [of os w d r n w'] by simp
    qed
  next
    case Call_TryGetNextChange
    then show ?thesis using s Caller
      by (auto simp: TryGetNextChange_def split: option.splits sum.splits)
  next
    case Call_ShutDown
    then have "ShutDown w = Some (Inr w')" using s Caller by simp
    from ShutDown_frame [OF this] show ?thesis by simp
  qed
qed

text \<open>
  Claim C8, amended. \<^verbatim>\<open>AddDirectory\<close>, on the thread of its caller, itself appends the new
  request to the end of the request list and then queues the start-up job for the worker
  thread; nothing that runs on the worker thread (the start-up job, a completion routine,
  the test of the loop) changes the request list. Of all the events of the system, the only
  ones that change the list are calls of the caller's thread: \<^verbatim>\<open>AddDirectory\<close>, which appends
  to it, and \<^verbatim>\<open>Initialize\<close>, which empties it.
\<close>

theorem request_list_mutation:
  "(AddDirectory os w directory' is_recursive' change_buffer_size = Inr (True, w') \<longrightarrow>
      requests w' = requests w @ [fst (malloc w)] \<and>
      (\<exists>thread. thread_handle w = Some thread \<and>
         pending_apcs w' = (if thread \<in> open_handles w \<and> thread_running w
                            then pending_apcs w @ [fst (malloc w)]
                            else pending_apcs w))) \<and>
   (worker_run os w evs = Some (Inr w'') \<longrightarrow> requests w'' = requests w) \<and>
   (system_step os w ev = Some (Inr w1) \<longrightarrow>
      requests w1 = requests w \<or>
      (\<exists>d r n. ev = Caller (Call_AddDirectory d r n) \<and>
         requests w1 = requests w @ [fst (malloc w)]) \<or>
      (ev = Caller Call_Initialize \<and> requests w1 = []))"
  using AddDirectory_True [of os w directory' is_recursive' change_buffer_size w']
    worker_run_requests [of os w evs w''] system_step_requests [of os w ev w1]
  by blast

lemma os_demo_eq:
  "to_utf16 os_demo data_name = Some data_dir" "can_open os_demo data_dir"
  "to_utf8 os_demo = ascii_utf8" "length data_dir = 7" "data_dir \<noteq> []"
  by (simp_all add: os_demo_def data_name_def data_dir_def wide_def)

lemma watching_explicit:
  "watching =
     initialised
       \<lparr>blocks := [4096],
        heap := [4096 \<mapsto> \<lparr>buffers = Map.empty, request_path = data_dir, buffer_size = 32768,
                          buffer_index = 0, is_recursive = True, directory = 101\<rparr>],
        open_handles := {101, 100}, next_handle := 102, requests := [4096],
        pending_apcs := [4096]\<rparr>"
  by (simp add: watching_def AddDirectory_def initialised_eq os_demo_eq Let_def s32_range_def
        malloc_def)

lemma watching_eq:
  "requests watching = [4096]" "pending_apcs watching = [4096]" "pending_reads watching = []"
  "blocks watching = [4096]"
  "heap watching = [4096 \<mapsto> \<lparr>buffers = Map.empty, request_path = data_dir,
                               buffer_size = 32768, buffer_index = 0, is_recursive = True,
                               directory = 101\<rparr>]"
  "open_handles watching = {101, 100}" "thread_handle watching = Some 100"
  "queue watching = Create" "\<not> should_terminate watching"
  "outstanding_request_count watching = 0" "thread_running watching"
  by (simp_all add: watching_explicit initialised_eq)

text \<open>
  Claim C8 as stated fails: a successful \<^verbatim>\<open>AddDirectory\<close> on an initialised watcher returns
  with the request in the list, while the job for the worker thread is still queued and no
  read has been started.
\<close>

theorem request_list_mutation_counterexample:
  "AddDirectory os_demo initialised (Some data_name) True 32768 = Inr (True, watching) \<and>
   requests initialised = [] \<and> requests watching = [4096] \<and>
   pending_apcs watching = [4096] \<and>
   pending_reads watching = []"
  using AddDirectory_demo by (simp add: watching_eq initialised_eq)

lemma pending_buffers_append:
  "pending_buffers (w\<lparr>pending_reads := pending_reads w @ [(a, off)]\<rparr>) b =
     (if b = a then pending_buffers w a @ [off] else pending_buffers w b)"
  by (simp add: pending_buffers_def)

lemma filter_remove1_first:
  assumes "map snd (filter (\<lambda>p. fst p = a) xs) = off # rest"
  shows "map snd (filter (\<lambda>p. fst p = b) (remove1 (a, off) xs)) =
           (if b = a then rest else map snd (filter (\<lambda>p. fst p = b) xs))"
  using assms
proof (induction xs)
  case Nil
  then show ?case by simp
next
  case (Cons x xs)
  then show ?case by (cases x) (auto split: if_splits)
qed

lemma pending_buffers_remove1:
  assumes "pending_buffers w a = off # rest"
  shows "pending_buffers (w\<lparr>pending_reads := remove1 (a, off) (pending_reads w)\<rparr>) b =
           (if b = a then rest else pending_buffers w b)"
  using filter_remove1_first [of a "pending_reads w" off rest b] assms
  by (simp add: pending_buffers_def)

lemma index_flip:
  assumes "i = 0 \<or> i = (1::int)"
  shows "(i XOR 1 = 0 \<or> i XOR 1 = 1) \<and> (i XOR 1) XOR 1 = i \<and> i XOR 1 \<noteq> i"
  using assms by auto

lemma request_ok_BeginRead:
  assumes ok: "request_ok w a" and br: "BeginRead w b = Inr w'"
    and idle: "b = a \<longrightarrow> a \<notin> set (pending_apcs w) \<and> pending_buffers w a = []"
  shows "request_ok w' a"
proof -
  from br obtain r where r: "heap w b = Some r"
    by (auto simp: BeginRead_def split: option.splits)
  from br r have w': "w' = w\<lparr>heap := (heap w)(b \<mapsto> r\<lparr>buffer_index := buffer_index r XOR 1\<rparr>),
                         pending_reads := (if directory r \<in> open_handles w
                                    then pending_reads w @ [(b, buffer_size r * buffer_index r)]
                                    else pending_reads w)\<rparr>"
    by (auto simp: BeginRead_def Let_def split: if_splits)
  show ?thesis
  proof (cases "b = a")
    case False
    then show ?thesis using ok
      by (auto simp: w' request_ok_def pending_buffers_def split: option.splits)
  next
    case True
    with ok r have "buffer_index r = 0 \<or> buffer_index r = 1"
      by (simp add: request_ok_def)
    from index_flip [OF this] ok r True idle show ?thesis
      by (auto simp: w' request_ok_def pending_buffers_def)
  qed
qed


lemma request_ok_frame:
  assumes "request_ok w a" "pending_apcs w' = pending_apcs w" "pending_reads w' = pending_reads w"
    and "heap w' a = map_option (\<lambda>r. r\<lparr>buffers := f r\<rparr>) (heap w a)"
  shows "request_ok w' a"
  using assms by (auto simp: request_ok_def pending_buffers_def split: option.splits)

lemma request_ok_Run_job:
  assumes ok: "request_ok w a" and s: "worker_step os w Run_job = Some (Inr w')"
  shows "request_ok w' a"
proof (cases "pending_apcs w")
  case Nil
  then show ?thesis using ok s by simp
next
  case (Cons b rest)
  define w0 where "w0 = w\<lparr>pending_apcs := rest,
                             outstanding_request_count := outstanding_request_count w + 1\<rparr>"
  from s Cons have br: "BeginRead w0 b = Inr w'"
    by (auto simp: ThreadAddDirectoryProc_def w0_def split: option.splits)
  have pb: "pending_buffers w0 a = pending_buffers w a"
    by (simp add: w0_def pending_buffers_def)
  have cl: "\<And>x. (count_list rest x = 0) = (x \<notin> set rest)"
    by (simp add: count_list_0_iff)
  have ok0: "request_ok w0 a"
    using ok Cons pb cl unfolding request_ok_def
    by (auto simp: w0_def split: option.splits if_splits)
  have idle: "b = a \<longrightarrow> a \<notin> set (pending_apcs w0) \<and> pending_buffers w0 a = []"
  proof
    assume ba: "b = a"
    from br obtain r where "heap w0 a = Some r"
      using ba by (auto simp: BeginRead_def split: option.splits)
    then have "heap w a = Some r" by (simp add: w0_def)
    with ok Cons ba have "count_list (a # rest) a = 1" "pending_buffers w a = []"
      by (auto simp: request_ok_def)
    then show "a \<notin> set (pending_apcs w0) \<and> pending_buffers w0 a = []"
      using pb by (auto simp: w0_def count_list_0_iff)
  qed
  from request_ok_BeginRead [OF ok0 br idle] show ?thesis .
qed

lemma request_ok_NotificationCompletion:
  assumes ok: "request_ok w a" and nc: "NotificationCompletion os w e n b = Some (Inr w')"
    and idle: "b = a \<longrightarrow> a \<notin> set (pending_apcs w) \<and> pending_buffers w a = []"
  shows "request_ok w' a"
proof -
  from nc obtain r where r: "heap w b = Some r"
    by (auto simp: NotificationCompletion_def split: option.splits)
  show ?thesis
  proof (cases "e = ERROR_OPERATION_ABORTED \<or> should_terminate w")
    case True
    then have "w' = free (w\<lparr>outstanding_request_count := outstanding_request_count w - 1\<rparr>) b"
      using nc r by (auto simp: NotificationCompletion_def)
    then show ?thesis using ok
      by (auto simp: request_ok_def pending_buffers_def free_def split: option.splits)
  next
    case False
    then have "NotificationCompletion_process os w e n b = Some (Inr w')"
      using nc r by (auto simp: NotificationCompletion_def split: if_splits)
    then obtain w1 q1 where br: "BeginRead w b = Inr w1" and w': "w' = w1\<lparr>queue := q1\<rparr>"
      by (auto simp: NotificationCompletion_process_def Let_def
          split: option.splits sum.splits if_splits)
    from request_ok_BeginRead [OF ok br idle] have "request_ok w1 a" .
    then show ?thesis
      by (auto simp: w' request_ok_def pending_buffers_def split: option.splits)
  qed
qed

lemma request_ok_read_completes:
  assumes ok: "request_ok w a" and s: "read_completes os w b e n written = Some (Inr w')"
  shows "request_ok w' a"
proof (cases "pending_buffers w b")
  case Nil
  then show ?thesis using ok s by (simp add: read_completes_def)
next
  case (Cons buffer rest)
  define w0 where
    "w0 = w\<lparr>pending_reads := remove1 (b, buffer) (pending_reads w),
            heap := (case heap w b of
                       None \<Rightarrow> heap w
                     | Some r \<Rightarrow>
                         if e = 0 \<and> n \<noteq> 0
                         then (heap w)(b \<mapsto> r\<lparr>buffers := (buffers r)(buffer \<mapsto> written)\<rparr>)
                         else heap w)\<rparr>"
  from s Cons have nc: "NotificationCompletion os w0 e n b = Some (Inr w')"
    by (simp add: read_completes_def w0_def)
  have pb: "pending_buffers w0 a = (if a = b then rest else pending_buffers w a)"
    using pending_buffers_remove1 [OF Cons, of a] by (simp add: w0_def pending_buffers_def)
  have h0: "heap w0 a =
              map_option (\<lambda>r. r\<lparr>buffers := (if a = b \<and> e = 0 \<and> n \<noteq> 0
                                                then (buffers r)(buffer \<mapsto> written)
                                                else buffers r)\<rparr>) (heap w a)"
    by (cases "heap w a"; cases "heap w b") (auto simp: w0_def option.map_ident)
  have rest_nil: "a = b \<Longrightarrow> heap w a \<noteq> None \<Longrightarrow> rest = [] \<and> a \<notin> set (pending_apcs w)"
    using ok Cons by (auto simp: request_ok_def split: if_splits)
  have ok0: "request_ok w0 a"
  proof (cases "heap w a")
    case None
    then show ?thesis using h0 by (simp add: request_ok_def)
  next
    case (Some r)
    then show ?thesis
      using ok h0 pb rest_nil unfolding request_ok_def
      by (auto simp: w0_def split: if_splits)
  qed
  have idle: "b = a \<longrightarrow> a \<notin> set (pending_apcs w0) \<and> pending_buffers w0 a = []"
  proof
    assume ba: "b = a"
    from nc obtain r0 where "heap w0 a = Some r0"
      using ba by (auto simp: NotificationCompletion_def split: option.splits)
    then have "heap w a \<noteq> None" using h0 by auto
    with rest_nil ba pb show "a \<notin> set (pending_apcs w0) \<and> pending_buffers w0 a = []"
      by (auto simp: w0_def)
  qed
  from request_ok_NotificationCompletion [OF ok0 nc idle] show ?thesis .
qed

lemma request_ok_step:
  assumes "request_ok w a" "worker_step os w ev = Some (Inr w')"
  shows "request_ok w' a"
proof (cases ev)
  case Run_job
  then show ?thesis using assms request_ok_Run_job by blast
next
  case (Read_completes b e n written)
  then show ?thesis using assms request_ok_read_completes by auto
next
  case Loop_test
  then have "w' = w \<or> w' = w\<lparr>thread_running := False\<rparr>"
    using assms(2) by (auto simp: ThreadProc_test_def)
  then show ?thesis using assms(1)
    by (auto simp: request_ok_def pending_buffers_def split: option.splits)
qed

lemma request_ok_run:
  assumes "request_ok w a" "worker_run os w evs = Some (Inr w')"
  shows "request_ok w' a"
  using assms
proof (induction evs arbitrary: w)
  case Nil
  then show ?case by simp
next
  case (Cons ev evs)
  from Cons.prems(2) obtain w1 where s: "worker_step os w ev = Some (Inr w1)"
    and r: "worker_run os w1 evs = Some (Inr w')"
    by (auto split: option.splits sum.splits)
  from Cons.IH [OF request_ok_step [OF Cons.prems(1) s] r] show ?case .
qed













lemma aborted_nonzero: "ERROR_OPERATION_ABORTED \<noteq> 0"
  by (simp add: ERROR_OPERATION_ABORTED_def)





lemma armed_explicit:
  "armed = watching\<lparr>pending_apcs := [], outstanding_request_count := 1,
                     heap := [4096 \<mapsto> armed_request], pending_reads := [(4096, 0)]\<rparr>"
  by (simp add: armed_def ThreadAddDirectoryProc_def BeginRead_def watching_eq Let_def
        s32_range_def armed_request_def)

lemma armed_eq:
  "requests armed = [4096]" "pending_apcs armed = []" "pending_reads armed = [(4096, 0)]"
  "heap armed 4096 = Some armed_request" "open_handles armed = {101, 100}"
  "thread_handle armed = Some 100" "queue armed = Create" "blocks armed = [4096]" "\<not> should_terminate armed"
  "outstanding_request_count armed = 1" "thread_running armed"
  "pending_buffers armed 4096 = [0]"
  by (simp_all add: armed_explicit watching_eq pending_buffers_def)



lemma Run_job_demo: "worker_run os_demo watching [Run_job] = Some (Inr armed)"
  by (simp add: armed_explicit ThreadAddDirectoryProc_def BeginRead_def watching_eq Let_def
        s32_range_def armed_request_def)








lemma Destroy_Create:
  "Destroy Create = Some \<lparr>lock = 0, data = None, capacity = 0, count = 0, front_index = 0\<rparr>"
  by (simp add: Destroy_def Create_def Lock_free Unlock_def)

lemma completed_eq:
  "requests completed = [4096]" "pending_apcs completed = []" "pending_reads completed = []"
  "heap completed = [4096 \<mapsto> armed_request\<lparr>buffers := [0 \<mapsto> rename_buffer]\<rparr>]"
  "open_handles completed = {101, 100}"
  "thread_handle completed = Some 100" "queue completed = Create" "blocks completed = [4096]" "\<not> should_terminate completed"
  "outstanding_request_count completed = 1" "thread_running completed"
  by (simp_all add: completed_def armed_eq)

lemma ShutDown_armed:
  "ShutDown armed =
     Some (Inr (armed\<lparr>should_terminate := True, open_handles := {},
                      queue := \<lparr>lock = 0, data = None, capacity = 0, count = 0,
                                front_index = 0\<rparr>\<rparr>))"
  by (simp add: ShutDown_def armed_eq armed_request_def Destroy_Create Let_def)

lemma ShutDown_completed:
  "ShutDown completed =
     Some (Inr (completed\<lparr>should_terminate := True, open_handles := {},
                          queue := \<lparr>lock = 0, data = None, capacity = 0, count = 0,
                                    front_index = 0\<rparr>\<rparr>))"
  by (simp add: ShutDown_def completed_eq armed_request_def Destroy_Create Let_def)

lemma Push_destroyed:
  "Push \<lparr>lock = 0, data = None, capacity = 0, count = 0, front_index = 0\<rparr> x =
     Some (Inl AssertionFailed)"
  by (simp add: Push_def Lock_free Grow_def)

lemma decode_on_destroyed:
  "ProcessNotification ascii_utf8 (Some rename_buffer) data_dir
     \<lparr>lock = 0, data = None, capacity = 0, count = 0, front_index = 0\<rparr> =
     Some (Inl AssertionFailed)"
  by code_simp

text \<open>
  Claim C3 on the code. \<^verbatim>\<open>ShutDown\<close> on the armed watcher returns with the directory handle
  closed and the queue destroyed while the worker thread is still inside \<^verbatim>\<open>ThreadProc\<close>,
  the condition of its loop still holds (one request outstanding) and the read is still in
  flight. When the read has completed and its completion routine has passed the test of
  \<^verbatim>\<open>should_terminate\<close> before \<^verbatim>\<open>ShutDown\<close> runs, the routine goes on after \<^verbatim>\<open>ShutDown\<close>
  has returned and pushes to the destroyed queue, where the assertion of \<^verbatim>\<open>Grow\<close> fails.
\<close>

theorem ShutDown_does_not_wait:
  "ShutDown armed = Some (Inr (shut_down armed)) \<and>
   thread_running (shut_down armed) \<and> ThreadProc_waits (shut_down armed) \<and>
   outstanding_request_count (shut_down armed) = 1 \<and>
   pending_reads (shut_down armed) = [(4096, 0)] \<and>
   data (queue (shut_down armed)) = None \<and> open_handles (shut_down armed) = {} \<and>
   NotificationCompletion os_demo completed 0 192 4096 =
     NotificationCompletion_process os_demo completed 0 192 4096 \<and>
   ShutDown completed = Some (Inr (shut_down completed)) \<and>
   thread_running (shut_down completed) \<and> ThreadProc_waits (shut_down completed) \<and>
   data (queue (shut_down completed)) = None \<and>
   NotificationCompletion_process os_demo (shut_down completed) 0 192 4096 =
     Some (Inl AssertionFailed)"
proof -
  have a: "shut_down armed =
             armed\<lparr>should_terminate := True, open_handles := {},
                   queue := \<lparr>lock = 0, data = None, capacity = 0, count = 0,
                             front_index = 0\<rparr>\<rparr>"
    by (simp add: shut_down_def ShutDown_armed)
  have c: "shut_down completed =
             completed\<lparr>should_terminate := True, open_handles := {},
                       queue := \<lparr>lock = 0, data = None, capacity = 0, count = 0,
                                 front_index = 0\<rparr>\<rparr>"
    by (simp add: shut_down_def ShutDown_completed)
  have 1: "NotificationCompletion os_demo completed 0 192 4096 =
             NotificationCompletion_process os_demo completed 0 192 4096"
    by (simp add: NotificationCompletion_def completed_eq aborted_nonzero)
  have 2: "NotificationCompletion_process os_demo (shut_down completed) 0 192 4096 =
             Some (Inl AssertionFailed)"
    by (simp add: c NotificationCompletion_process_def BeginRead_def completed_eq
          armed_request_def Let_def s32_range_def os_demo_eq decode_on_destroyed)
  show ?thesis
    using 1 2 by (simp add: a c ShutDown_armed ShutDown_completed armed_eq completed_eq
        ThreadProc_waits_def)
qed

lemma nope_eq:
  "to_utf16 os_demo ''nope'' = Some (wide ''nope'')" "\<not> can_open os_demo (wide ''nope'')"
  "length (wide ''nope'') = 4"
  by (simp_all add: os_demo_def data_dir_def wide_def)

lemma malloc_initialised: "fst (malloc initialised) = 4096"
  by (simp add: malloc_def initialised_eq)

lemma AddDirectory_nope:
  "AddDirectory os_demo initialised (Some ''nope'') True 32768 = Inr (False, initialised)"
  using malloc_free_unused [of initialised]
  by (simp add: AddDirectory_def initialised_eq nope_eq Let_def s32_range_def)

lemma ShutDown_initialised:
  "ShutDown initialised =
     Some (Inr (initialised\<lparr>should_terminate := True, open_handles := {},
                            queue := \<lparr>lock = 0, data = None, capacity = 0, count = 0,
                                      front_index = 0\<rparr>\<rparr>))"
  by (simp add: ShutDown_def initialised_eq Destroy_Create Let_def)

theorem AddDirectory_open_failure_witness:
  "AddDirectory os_demo initialised (Some ''nope'') True 32768 = Inr (False, initialised) \<and>
   \<not> can_open os_demo (wide ''nope'') \<and> heap initialised (fst (malloc initialised)) = None \<and>
   blocks initialised = [] \<and> requests initialised = [] \<and>
   (\<exists>w1. ShutDown initialised = Some (Inr w1) \<and> open_handles w1 = {} \<and> blocks w1 = [])"
  using AddDirectory_open_failure [of os_demo initialised "Some ''nope''" True 32768 initialised]
    AddDirectory_nope nope_eq(2)
  by (simp add: ShutDown_initialised initialised_eq)

theorem request_list_mutation_witness:
  "AddDirectory os_demo initialised (Some data_name) True 32768 = Inr (True, watching) \<and>
   requests watching = requests initialised @ [fst (malloc initialised)] \<and>
   pending_apcs watching = pending_apcs initialised @ [fst (malloc initialised)] \<and>
   worker_run os_demo watching [Run_job] = Some (Inr armed) \<and>
   requests armed = requests watching"
  using request_list_mutation [of os_demo initialised "Some data_name" True 32768 watching
      "[]" initialised]
    request_list_mutation [of os_demo watching None True 0 watching "[Run_job]" armed]
    AddDirectory_demo Run_job_demo
  by (simp add: initialised_eq malloc_initialised)

theorem ShutDown_does_not_wait_witness:
  "ShutDown armed = Some (Inr (shut_down armed)) \<and>
   should_terminate (shut_down armed) \<and> outstanding_request_count (shut_down armed) \<noteq> 0 \<and>
   ThreadProc_waits (shut_down armed) \<and> thread_running (shut_down armed) \<and>
   data (queue (shut_down armed)) = None"
  using ShutDown_does_not_wait
  by (simp add: shut_down_def ShutDown_armed)


end
